theory Spec2Isabelle
  imports Complex_Main "HOL-Library.Sublist" "HOL-Library.Word" "HOL-Library.AList"
begin

section \<open>Strings and paths of the JavaScript runtime\<close>

text \<open>
  The bundler is a TypeScript program; its strings are modelled as \<open>string\<close> (ASCII text,
  where UTF-16 code units and bytes coincide). The few built-ins the source calls on strings
  and paths are written out here as the ECMAScript and Node (POSIX) algorithms define them.
\<close>

text \<open>\<open>s.split(c)\<close> for a one-character separator: never empty, \<open>''''\<close> gives \<open>['''']\<close>.\<close>

fun split_on :: "char \<Rightarrow> string \<Rightarrow> string list" where
  "split_on c [] = [[]]"
| "split_on c (x # xs) =
     (if x = c then [] # split_on c xs
      else (case split_on c xs of [] \<Rightarrow> [[x]] | y # ys \<Rightarrow> (x # y) # ys))"

text \<open>\<open>s.startsWith(p)\<close> and \<open>s.includes(p)\<close>.\<close>

definition startsWith :: "string \<Rightarrow> string \<Rightarrow> bool" where
  "startsWith s p = (take (length p) s = p)"

fun str_includes :: "string \<Rightarrow> string \<Rightarrow> bool" where
  "str_includes [] p = (p = [])"
| "str_includes (c # cs) p = (startsWith (c # cs) p \<or> str_includes cs p)"

text \<open>\<open>s.toLowerCase()\<close> on ASCII text.\<close>

definition lower_char :: "char \<Rightarrow> char" where
  "lower_char c =
     (if 65 \<le> (of_char c :: nat) \<and> (of_char c :: nat) \<le> 90
      then char_of ((of_char c :: nat) + 32) else c)"

definition toLowerCase :: "string \<Rightarrow> string" where
  "toLowerCase s = map lower_char s"

text \<open>
  \<open>GetSubstitution\<close> of ECMAScript for a string pattern (no capture groups): in the
  replacement text \<open>$$\<close> is a dollar sign, \<open>$&\<close> the matched text, \<open>$`\<close> the text before the
  match and \<open>$'\<close> the text after it; every other character stands for itself.
\<close>

fun get_substitution :: "string \<Rightarrow> string \<Rightarrow> string \<Rightarrow> string \<Rightarrow> string" where
  "get_substitution matched pre post [] = []"
| "get_substitution matched pre post [c] = [c]"
| "get_substitution matched pre post (c # d # r) =
     (if c = CHR ''$'' \<and> d = CHR ''$'' then CHR ''$'' # get_substitution matched pre post r
      else if c = CHR ''$'' \<and> d = CHR ''&'' then matched @ get_substitution matched pre post r
      else if c = CHR ''$'' \<and> d = CHR 0x60 then pre @ get_substitution matched pre post r
      else if c = CHR ''$'' \<and> d = CHR 0x27 then post @ get_substitution matched pre post r
      else c # get_substitution matched pre post (d # r))"

text \<open>
  \<open>text.replaceAll(k, v)\<close> for a non-empty string pattern \<open>k\<close>: the occurrences of \<open>k\<close> are
  found from left to right without overlap, and each is replaced by the substitution of \<open>v\<close>.
  \<open>pre\<close> is the text already passed, \<open>skip\<close> the number of characters of the current
  occurrence still to pass.
\<close>

fun replaceAll_from :: "string \<Rightarrow> string \<Rightarrow> string \<Rightarrow> nat \<Rightarrow> string \<Rightarrow> string" where
  "replaceAll_from k v pre skip [] = []"
| "replaceAll_from k v pre skip (c # cs) =
     (if 0 < skip then replaceAll_from k v (pre @ [c]) (skip - 1) cs
      else if startsWith (c # cs) k
      then get_substitution k pre (drop (length k) (c # cs)) v
             @ replaceAll_from k v (pre @ [c]) (length k - 1) cs
      else c # replaceAll_from k v (pre @ [c]) 0 cs)"

text \<open>With the empty pattern, \<open>replaceAll\<close> puts the replacement before every character and at the end.\<close>

fun replaceAll_empty :: "string \<Rightarrow> string \<Rightarrow> string \<Rightarrow> string" where
  "replaceAll_empty v pre [] = get_substitution [] pre [] v"
| "replaceAll_empty v pre (c # cs) =
     get_substitution [] pre (c # cs) v @ c # replaceAll_empty v (pre @ [c]) cs"

definition replaceAll :: "string \<Rightarrow> string \<Rightarrow> string \<Rightarrow> string" where
  "replaceAll k v t = (if k = [] then replaceAll_empty v [] t else replaceAll_from k v [] 0 t)"

text \<open>\<open>text.replace(k, v)\<close> for a string pattern: the first occurrence only.\<close>

fun replace_from :: "string \<Rightarrow> string \<Rightarrow> string \<Rightarrow> string \<Rightarrow> string" where
  "replace_from k v pre [] = (if k = [] then get_substitution [] pre [] v else [])"
| "replace_from k v pre (c # cs) =
     (if startsWith (c # cs) k
      then get_substitution k pre (drop (length k) (c # cs)) v @ drop (length k) (c # cs)
      else c # replace_from k v (pre @ [c]) cs)"

definition replace :: "string \<Rightarrow> string \<Rightarrow> string \<Rightarrow> string" where
  "replace k v t = replace_from k v [] t"

text \<open>\<open>n.toString(36)\<close> for a non-negative integer.\<close>

definition digit36 :: "nat \<Rightarrow> char" where
  "digit36 d = ''0123456789abcdefghijklmnopqrstuvwxyz'' ! d"

fun toString36 :: "nat \<Rightarrow> string" where
  "toString36 n = (if n < 36 then [digit36 n] else toString36 (n div 36) @ [digit36 (n mod 36)])"

declare toString36.simps [simp del]

subsection \<open>node:path (POSIX)\<close>

text \<open>
  \<open>normalizeString\<close>: the segments of a path are passed from left to right; empty segments
  and \<open>.\<close> are dropped, \<open>..\<close> removes the segment before it, and is kept only where the
  path is relative and nothing is left to remove. The stack holds the kept segments, last first.
\<close>

fun normalize_step :: "bool \<Rightarrow> string list \<Rightarrow> string \<Rightarrow> string list" where
  "normalize_step allowAboveRoot stack seg =
     (if seg = [] \<or> seg = ''.'' then stack
      else if seg = ''..'' then
        (case stack of
           [] \<Rightarrow> if allowAboveRoot then [''..''] else []
         | s # ss \<Rightarrow> if s = ''..'' then ''..'' # s # ss else ss)
      else seg # stack)"

definition normalizeString :: "bool \<Rightarrow> string \<Rightarrow> string list" where
  "normalizeString allowAboveRoot p =
     rev (foldl (normalize_step allowAboveRoot) [] (split_on CHR ''/'' p))"

fun join_with :: "string \<Rightarrow> string list \<Rightarrow> string" where
  "join_with sep [] = []"
| "join_with sep [x] = x"
| "join_with sep (x # y # ys) = x @ sep @ join_with sep (y # ys)"

definition normalize :: "string \<Rightarrow> string" where
  "normalize p =
     (if p = [] then ''.''
      else
        let isAbsolute = (hd p = CHR ''/'');
            trailingSeparator = (last p = CHR ''/'');
            q = join_with ''/'' (normalizeString (\<not> isAbsolute) p)
        in if q = [] then (if isAbsolute then ''/'' else if trailingSeparator then ''./'' else ''.'')
           else (if isAbsolute then ''/'' else []) @ q @ (if trailingSeparator then ''/'' else []))"

text \<open>\<open>path.join(...parts)\<close>: the non-empty parts joined by \<open>/\<close>, then normalised.\<close>

definition path_join :: "string list \<Rightarrow> string" where
  "path_join parts =
     (let joined = join_with ''/'' (filter (\<lambda>s. s \<noteq> []) parts)
      in if joined = [] then ''.'' else normalize joined)"

text \<open>
  The last component of a path, trailing separators ignored; this is the text that
  \<open>path.parse\<close> returns as \<open>base\<close> and that \<open>path.extname\<close> looks at.
\<close>

definition path_base :: "string \<Rightarrow> string" where
  "path_base p = rev (takeWhile (\<lambda>c. c \<noteq> CHR ''/'') (dropWhile (\<lambda>c. c = CHR ''/'') (rev p)))"

text \<open>
  \<open>path.extname\<close>: from the last dot of the base to its end; empty when the base has no
  dot, when its only dot is its first character, and when the base is \<open>..\<close>.
\<close>

definition ext_of_base :: "string \<Rightarrow> string" where
  "ext_of_base b =
     (if CHR ''.'' \<notin> set b \<or> b = ''..'' then []
      else
        let e = CHR ''.'' # rev (takeWhile (\<lambda>c. c \<noteq> CHR ''.'') (rev b))
        in if length e = length b then [] else e)"

definition path_extname :: "string \<Rightarrow> string" where
  "path_extname p = ext_of_base (path_base p)"

text \<open>The \<open>name\<close> of \<open>path.parse\<close>: the base without its extension.\<close>

definition path_parse_name :: "string \<Rightarrow> string" where
  "path_parse_name p = (let b = path_base p in take (length b - length (ext_of_base b)) b)"

section \<open>Configuration, file system and collaborators\<close>

record BundlerConfig =
  assetsDir :: string
  autoReload :: bool
  backendDir :: string
  backendLanguage :: "string option"
  bundleDir :: string
  frontendAlias :: string
  frontendDir :: string
  templateDir :: string
  tempDir :: string

text \<open>The module-level constants of \<open>bundler.ts\<close> beside the configuration.\<close>

record program = BundlerConfig +
  cwd :: string
  command :: string
  dirname :: string

definition isAutoReload :: "'a program_scheme \<Rightarrow> bool" where
  "isAutoReload cfg = (autoReload cfg \<and> command cfg = ''dev'')"

text \<open>\<open>frontendAlias = { find, replacement }\<close>.\<close>

definition alias_find :: "'a program_scheme \<Rightarrow> string" where
  "alias_find cfg = frontendAlias cfg"

definition alias_replacement :: "'a program_scheme \<Rightarrow> string" where
  "alias_replacement cfg = path_join [cwd cfg, frontendDir cfg]"

text \<open>
  The disk: what is at a path, if anything. Paths are absolute and in the normal form that
  \<open>path.join\<close> gives. The file system calls of a build fail where the model says so (a
  read of a path that holds no file); a path that runs through a regular file is left out.
\<close>

datatype node = File string | Dir

type_synonym disk = "string \<Rightarrow> node option"

definition existsSync :: "disk \<Rightarrow> string \<Rightarrow> bool" where
  "existsSync d p = (d p \<noteq> None)"

section \<open>Alias resolver\<close>

text \<open>
  \<open>resolveAlias\<close>: \<open>input.split("?")\<close> gives the alias and the query (the second piece, absent
  when there is no question mark). No step of the body can throw on a string, so the
  \<open>try\<close> has no failing branch.
\<close>

definition resolveAlias :: "'a program_scheme \<Rightarrow> disk \<Rightarrow> string \<Rightarrow> (string \<times> string option) option" where
  "resolveAlias cfg d input =
     (let parts = split_on CHR ''?'' input;
          alias = hd parts;
          querystring = (case tl parts of [] \<Rightarrow> None | q # _ \<Rightarrow> Some q)
      in if startsWith alias (alias_find cfg @ ''/'')
         then
           let resolved = path_join [alias_replacement cfg, drop (length (alias_find cfg)) alias]
           in if existsSync d resolved then Some (resolved, querystring) else None
         else None)"

section \<open>Content addresser\<close>

text \<open>
  \<open>Bun.hash\<close> is the runtime's 64-bit hash; \<open>generateHash\<close> takes it as the parameter \<open>h\<close>.
\<close>

definition generateHash :: "(string \<Rightarrow> 64 word) \<Rightarrow> string \<Rightarrow> string" where
  "generateHash h input = take 8 (toString36 (unat (h input)))"

record route_info =
  route :: string
  outPath :: string

definition generateRoute :: "'a program_scheme \<Rightarrow> string \<Rightarrow> string \<Rightarrow> route_info" where
  "generateRoute cfg resourcePath hash =
     (let ext = path_extname resourcePath;
          name = path_parse_name resourcePath;
          outName = name @ ''.'' @ hash @ ext
      in \<lparr> route = ''/'' @ assetsDir cfg @ ''/'' @ outName,
           outPath = path_join [cwd cfg, bundleDir cfg, assetsDir cfg, outName] \<rparr>)"


section \<open>Build state and collaborators\<close>

text \<open>
  What a build throws. The state at the throw is kept with the error: the writes made
  before it stay on the disk.
\<close>

datatype error = FileError string | CollaboratorError string

datatype ('s, 'a) outcome = Diverged | Threw error 's | Done 'a

definition and_then :: "('s, 'a) outcome \<Rightarrow> ('a \<Rightarrow> ('s, 'b) outcome) \<Rightarrow> ('s, 'b) outcome" where
  "and_then m f = (case m of Diverged \<Rightarrow> Diverged | Threw e s \<Rightarrow> Threw e s | Done x \<Rightarrow> f x)"

text \<open>A \<open>for ... of\<close> loop over a list whose body changes the state and may throw.\<close>

fun for_each :: "('a \<Rightarrow> 's \<Rightarrow> ('s, 's) outcome) \<Rightarrow> 'a list \<Rightarrow> 's \<Rightarrow> ('s, 's) outcome" where
  "for_each f [] st = Done st"
| "for_each f (x # xs) st = and_then (f x st) (for_each f xs)"

text \<open>
  A JavaScript number as far as the program looks at it: \<open>NaN\<close>, an infinity (\<open>True\<close> for
  the positive one) or a finite value; both zeros are \<open>Num 0\<close>.
\<close>

datatype js_number = NaN | Infinity bool | Num rat

definition truthy_number :: "js_number \<Rightarrow> bool" where
  "truthy_number w = (case w of NaN \<Rightarrow> False | Infinity _ \<Rightarrow> True | Num r \<Rightarrow> r \<noteq> 0)"

definition isNaN :: "js_number \<Rightarrow> bool" where
  "isNaN w = (w = NaN)"

text \<open>One item of \<open>result.output\<close> of the script bundler.\<close>

record chunk =
  is_chunk :: bool
  isEntry :: bool
  facadeModuleId :: "string option"
  fileName :: string
  code :: string

text \<open>
  The script bundler calls the \<open>transform\<close> hook once per module it loads, and which
  modules it loads can depend on what the hook returned for the earlier ones. Given the
  disk, the entries, the mode and the modules transformed so far, it either loads one more
  module, or writes its output, or fails.
\<close>

datatype bundler_step = Load string string | Emit "chunk list" | Abort error

text \<open>
  The collaborators and runtime built-ins the build calls: \<open>Bun.hash\<close>,
  \<open>new URLSearchParams(q).get(k)\<close> and \<open>.has(k)\<close>, \<open>Number(v)\<close>, the image resizer, the
  stylesheet compiler (Tailwind, then Lightning CSS), the script bundler, the template glob,
  \<open>Bun.build\<close> of a template, the import and call of its default export, the HTML formatter,
  \<open>Date.now()\<close> and the file glob of the dev loop.
\<close>

record env =
  bun_hash :: "string \<Rightarrow> 64 word"
  searchParams_get :: "string option \<Rightarrow> string \<Rightarrow> string option"
  searchParams_has :: "string option \<Rightarrow> string \<Rightarrow> bool"
  to_Number :: "string option \<Rightarrow> js_number"
  sharp_resize :: "string \<Rightarrow> js_number \<Rightarrow> error + string"
  compile_css :: "disk \<Rightarrow> string \<Rightarrow> string \<Rightarrow> error + string"
  rolldown :: "disk \<Rightarrow> string list \<Rightarrow> bool \<Rightarrow> (string \<times> string) list \<Rightarrow> bundler_step"
  glob_templates :: "disk \<Rightarrow> string list"
  bun_build :: "disk \<Rightarrow> string \<Rightarrow> error + string option"
  import_default :: "disk \<Rightarrow> string \<Rightarrow> error + string"
  prettier_format :: "string \<Rightarrow> error + string"
  date_now :: string
  glob_files :: "disk \<Rightarrow> string \<Rightarrow> string list"

text \<open>The text blobs a substitution pass runs over, and what a build does, in order.\<close>

datatype blob = Markup string | Stylesheet string | Script string

datatype event =
    RmTree string
  | Write string
  | TableSet string
  | Resized string
  | Compiled string
  | Bundled "string list"
  | Hashed string
  | Substituted blob

text \<open>
  The state of one build: the disk, the replacement table \<open>replacers\<close>, the two collection
  maps of \<open>bundle\<close>, and the log of what was done. The three maps are JavaScript \<open>Map\<close>s:
  association lists in insertion order, where \<open>set\<close> on a present key keeps its place.
\<close>

record build_state =
  disk_of :: disk
  replacers :: "(string \<times> string) list"
  rawScripts :: "(string \<times> string) list"
  rawHTMLs :: "(string \<times> string) list"
  events :: "event list"

definition map_has :: "(string \<times> string) list \<Rightarrow> string \<Rightarrow> bool" where
  "map_has m k = (map_of m k \<noteq> None)"

definition log_event :: "event \<Rightarrow> build_state \<Rightarrow> build_state" where
  "log_event e st = st\<lparr> events := events st @ [e] \<rparr>"

definition table_set :: "string \<Rightarrow> string \<Rightarrow> build_state \<Rightarrow> build_state" where
  "table_set k v st = st\<lparr> replacers := AList.update k v (replacers st), events := events st @ [TableSet k] \<rparr>"

definition write_file :: "string \<Rightarrow> string \<Rightarrow> build_state \<Rightarrow> build_state" where
  "write_file p content st = st\<lparr> disk_of := (disk_of st)(p \<mapsto> File content), events := events st @ [Write p] \<rparr>"

definition readFile :: "disk \<Rightarrow> string \<Rightarrow> error + string" where
  "readFile d p = (case d p of Some (File content) \<Rightarrow> Inr content | _ \<Rightarrow> Inl (FileError p))"

text \<open>
  \<open>path.join\<close> keeps a separator at the end of its last segment, so a directory can be named
  with one (\<open>bundleDir: ".bundle/"\<close>); \<open>dir_path\<close> is the name without it. A path is inside
  a directory when it continues the directory's path after a separator.
\<close>

definition dir_path :: "string \<Rightarrow> string" where
  "dir_path dir = rev (dropWhile (\<lambda>c. c = CHR ''/'') (rev dir))"

definition inside :: "string \<Rightarrow> string \<Rightarrow> bool" where
  "inside dir p = startsWith p (dir_path dir @ ''/'')"

text \<open>
  \<open>rmSync(dir, { force: true, recursive: true })\<close>: what \<open>dir\<close> names goes, with everything
  inside it; nothing at the path is no error.
\<close>

definition rm_tree :: "string \<Rightarrow> build_state \<Rightarrow> build_state" where
  "rm_tree dir st =
     st\<lparr> disk_of := (\<lambda>p. if p = dir_path dir \<or> inside dir p then None else disk_of st p),
         events := events st @ [RmTree dir] \<rparr>"

section \<open>Reference scanner\<close>

text \<open>
  \<open>resourceRegex\<close> is \<open>["'](find/[^"'*]+)["']\<close> with the global flag, for an alias prefix
  \<open>find\<close> without regular-expression metacharacters. The class is greedy and excludes the
  quotes, so at a given start there is one candidate: the longest run of class characters,
  which must be non-empty and followed by a quote. A match gives the whole quoted text
  (\<open>match[0]\<close>) and the token (\<open>match[1]\<close>).
\<close>

definition is_quote :: "char \<Rightarrow> bool" where
  "is_quote c = (c = CHR 0x22 \<or> c = CHR 0x27)"

definition token_char :: "char \<Rightarrow> bool" where
  "token_char c = (\<not> is_quote c \<and> c \<noteq> CHR ''*'')"

definition match_at :: "string \<Rightarrow> string \<Rightarrow> (string \<times> string) option" where
  "match_at alias t =
     (case t of
        [] \<Rightarrow> None
      | q # r \<Rightarrow>
          if is_quote q \<and> startsWith r (alias @ ''/'') then
            let r' = drop (length alias + 1) r;
                body = takeWhile token_char r';
                rest = dropWhile token_char r'
            in (case rest of
                  [] \<Rightarrow> None
                | q' # _ \<Rightarrow>
                    if body \<noteq> [] \<and> is_quote q'
                    then Some (q # alias @ ''/'' @ body @ [q'], alias @ ''/'' @ body)
                    else None)
          else None)"

text \<open>\<open>text.matchAll(resourceRegex)\<close>: the matches from left to right, the search going on after each match.\<close>

fun scan_from :: "string \<Rightarrow> nat \<Rightarrow> string \<Rightarrow> (string \<times> string) list" where
  "scan_from alias skip [] = []"
| "scan_from alias skip (c # cs) =
     (if 0 < skip then scan_from alias (skip - 1) cs
      else (case match_at alias (c # cs) of
              None \<Rightarrow> scan_from alias 0 cs
            | Some m \<Rightarrow> m # scan_from alias (length (fst m) - 1) cs))"

definition matchAll :: "'a program_scheme \<Rightarrow> string \<Rightarrow> (string \<times> string) list" where
  "matchAll cfg t = scan_from (alias_find cfg) 0 t"

section \<open>Resource processor\<close>

text \<open>The substitution pass: \<open>for (const [alias, filePath] of replacers) output = output.replaceAll(alias, filePath)\<close>.\<close>

definition substitute :: "(string \<times> string) list \<Rightarrow> string \<Rightarrow> string" where
  "substitute tbl t = foldl (\<lambda>output (alias, filePath). replaceAll alias filePath output) t tbl"

definition processImage ::
  "env \<Rightarrow> string \<Rightarrow> string option \<Rightarrow> build_state \<Rightarrow> (build_state, string \<times> build_state) outcome" where
  "processImage ev resourcePath querystring st =
     (let width = to_Number ev (searchParams_get ev querystring ''w'')
      in case readFile (disk_of st) resourcePath of
           Inl e \<Rightarrow> Threw e st
         | Inr buffer \<Rightarrow>
             if truthy_number width \<and> \<not> isNaN width
             then (case sharp_resize ev buffer width of
                     Inl e \<Rightarrow> Threw e st
                   | Inr resized \<Rightarrow> Done (resized, log_event (Resized resourcePath) st))
             else Done (buffer, st))"

text \<open>
  The loop that \<open>processCss\<close> and the \<open>transform\<close> hook of \<open>processScript\<close> both run over the
  matches of a text; \<open>pf\<close> is \<open>processFile\<close>.
\<close>

definition processMatches ::
  "(string \<Rightarrow> string \<times> string option \<Rightarrow> build_state \<Rightarrow> (build_state, build_state) outcome) \<Rightarrow>
   'a program_scheme \<Rightarrow> (string \<times> string) list \<Rightarrow> build_state \<Rightarrow> (build_state, build_state) outcome" where
  "processMatches pf cfg ms st =
     for_each (\<lambda>m s.
        let resourceAlias = snd m
        in if map_has (replacers s) resourceAlias then Done s
           else (case resolveAlias cfg (disk_of s) resourceAlias of
                   None \<Rightarrow> Done s
                 | Some resourcePathAndQuery \<Rightarrow> pf resourceAlias resourcePathAndQuery s)) ms st"

definition processCss ::
  "(string \<Rightarrow> string \<times> string option \<Rightarrow> build_state \<Rightarrow> (build_state, build_state) outcome) \<Rightarrow>
   env \<Rightarrow> 'a program_scheme \<Rightarrow> string \<Rightarrow> build_state \<Rightarrow> (build_state, string \<times> build_state) outcome" where
  "processCss pf ev cfg resourcePath st =
     (case readFile (disk_of st) resourcePath of
        Inl e \<Rightarrow> Threw e st
      | Inr css1 \<Rightarrow>
          (case compile_css ev (disk_of st) resourcePath css1 of
             Inl e \<Rightarrow> Threw e st
           | Inr css \<Rightarrow>
               and_then (processMatches pf cfg (matchAll cfg css) (log_event (Compiled resourcePath) st))
                 (\<lambda>st'. Done (substitute (replacers st') css,
                              log_event (Substituted (Stylesheet resourcePath)) st'))))"

text \<open>The \<open>transform\<close> handler of the plugin \<open>x:bundle\<close>.\<close>

definition transform_handler ::
  "(string \<Rightarrow> string \<times> string option \<Rightarrow> build_state \<Rightarrow> (build_state, build_state) outcome) \<Rightarrow>
   'a program_scheme \<Rightarrow> string \<Rightarrow> string \<Rightarrow> build_state \<Rightarrow> (build_state, string \<times> build_state) outcome" where
  "transform_handler pf cfg src mid st =
     (if \<not> str_includes mid (''/'' @ frontendDir cfg @ ''/'') then Done (src, st)
      else and_then (processMatches pf cfg (matchAll cfg src) st)
             (\<lambda>st'. Done (substitute (replacers st') src, log_event (Substituted (Script mid)) st')))"

text \<open>
  The run of the script bundler: it asks for modules until it writes its output. The
  number of modules is not bounded, so the loop has fuel. The handler runs for one module
  after the other; a bundler that starts the handler for a module while the handler of
  another one awaits is not covered.
\<close>

primrec run_rolldown ::
  "nat \<Rightarrow> (string \<Rightarrow> string \<times> string option \<Rightarrow> build_state \<Rightarrow> (build_state, build_state) outcome) \<Rightarrow>
   env \<Rightarrow> 'a program_scheme \<Rightarrow> string list \<Rightarrow> bool \<Rightarrow> (string \<times> string) list \<Rightarrow> build_state \<Rightarrow>
   (build_state, chunk list \<times> build_state) outcome" where
  "run_rolldown 0 pf ev cfg entries inline seen st = Diverged"
| "run_rolldown (Suc n) pf ev cfg entries inline seen st =
     (case rolldown ev (disk_of st) entries inline seen of
        Abort e \<Rightarrow> Threw e st
      | Emit out \<Rightarrow> Done (out, st)
      | Load mid src \<Rightarrow>
          and_then (transform_handler pf cfg src mid st)
            (\<lambda>r. run_rolldown n pf ev cfg entries inline (seen @ [(mid, fst r)]) (snd r)))"

text \<open>The loop of \<open>processScript\<close> over \<open>result.output\<close> for a map of entries.\<close>

definition set_entry_route :: "'a program_scheme \<Rightarrow> (string \<times> string) list \<Rightarrow> build_state \<Rightarrow> chunk \<Rightarrow> build_state" where
  "set_entry_route cfg input st c =
     (if is_chunk c \<and> isEntry c then
        (case facadeModuleId c of
           None \<Rightarrow> st
         | Some fid \<Rightarrow>
             if fid = [] then st
             else (case map_of input fid of
                     None \<Rightarrow> st
                   | Some resourceAlias \<Rightarrow>
                       if resourceAlias = [] then st
                       else table_set resourceAlias (''/'' @ assetsDir cfg @ ''/'' @ fileName c) st))
      else st)"

text \<open>
  \<open>processScript\<close>: \<open>input\<close> is a path (an inline script, \<open>Inl\<close>) or a map from paths to
  tokens (\<open>Inr\<close>). The bundler writes every item of its output under the temporary
  directory (inline) or the assets directory. Inline, the result is the code of the first item.
\<close>

definition processScript ::
  "nat \<Rightarrow> (string \<Rightarrow> string \<times> string option \<Rightarrow> build_state \<Rightarrow> (build_state, build_state) outcome) \<Rightarrow>
   env \<Rightarrow> 'a program_scheme \<Rightarrow> string + (string \<times> string) list \<Rightarrow> build_state \<Rightarrow>
   (build_state, string option \<times> build_state) outcome" where
  "processScript n pf ev cfg input st =
     (let inline = isl input;
          entries = (case input of Inl p \<Rightarrow> [p] | Inr m \<Rightarrow> map fst m)
      in and_then (run_rolldown n pf ev cfg entries inline [] (log_event (Bundled entries) st))
           (\<lambda>r.
              let dir = path_join [cwd cfg, bundleDir cfg, if inline then tempDir cfg else assetsDir cfg];
                  st2 = foldl (\<lambda>s c. write_file (path_join [dir, fileName c]) (code c) s) (snd r) (fst r)
              in (case input of
                    Inl p \<Rightarrow>
                      (case fst r of
                         [] \<Rightarrow> Threw (CollaboratorError ''rolldown'') st2
                       | c # _ \<Rightarrow> Done (Some (code c), st2))
                  | Inr m \<Rightarrow> Done (None, foldl (set_entry_route cfg m) st2 (fst r)))))"

text \<open>
  What \<open>processFile\<close> holds in \<open>data\<close>: bytes (always truthy) or text (truthy when not empty).
\<close>

datatype data = Bytes string | Text string

definition truthy_data :: "data \<Rightarrow> bool" where
  "truthy_data x = (case x of Bytes _ \<Rightarrow> True | Text s \<Rightarrow> s \<noteq> [])"

definition content_of :: "data \<Rightarrow> string" where
  "content_of x = (case x of Bytes s \<Rightarrow> s | Text s \<Rightarrow> s)"

text \<open>The end of \<open>processFile\<close>: \<open>if (data) { hash; route; replacers.set; write }\<close>.\<close>

definition store_artifact :: "env \<Rightarrow> 'a program_scheme \<Rightarrow> string \<Rightarrow> string \<Rightarrow> data \<Rightarrow> build_state \<Rightarrow> build_state" where
  "store_artifact ev cfg resourceAlias resourcePath x st =
     (if truthy_data x then
        let hash = generateHash (bun_hash ev) (content_of x);
            r = generateRoute cfg resourcePath hash
        in write_file (outPath r) (content_of x)
             (table_set resourceAlias (route r) (log_event (Hashed resourcePath) st))
      else st)"

definition processFile_body ::
  "nat \<Rightarrow> (string \<Rightarrow> string \<times> string option \<Rightarrow> build_state \<Rightarrow> (build_state, build_state) outcome) \<Rightarrow>
   env \<Rightarrow> 'a program_scheme \<Rightarrow> string \<Rightarrow> string \<times> string option \<Rightarrow> build_state \<Rightarrow>
   (build_state, build_state) outcome" where
  "processFile_body n pf ev cfg resourceAlias resourcePathAndQuery st =
     (if map_has (replacers st) resourceAlias then Done st
      else
        let resourcePath = fst resourcePathAndQuery;
            querystring = snd resourcePathAndQuery;
            ext = toLowerCase (path_extname resourcePath)
        in if ext = ''.js'' \<or> ext = ''.ts'' then
             (if searchParams_has ev querystring ''worker''
              then and_then (processScript n pf ev cfg (Inr [(resourcePath, resourceAlias)]) st)
                     (\<lambda>r. Done (snd r))
              else Done st)
           else if ext = ''.png'' \<or> ext = ''.jpg'' \<or> ext = ''.jpeg'' then
             and_then (processImage ev resourcePath querystring st)
               (\<lambda>r. Done (store_artifact ev cfg resourceAlias resourcePath (Bytes (fst r)) (snd r)))
           else if ext = ''.css'' then
             and_then (processCss pf ev cfg resourcePath st)
               (\<lambda>r. Done (store_artifact ev cfg resourceAlias resourcePath (Text (fst r)) (snd r)))
           else Done st)"

text \<open>
  \<open>processFile\<close>. A stylesheet or a script can refer to a resource whose processing comes
  back to it, so the recursion has fuel; the membership check comes before anything else.
\<close>

primrec processFile ::
  "nat \<Rightarrow> env \<Rightarrow> 'a program_scheme \<Rightarrow> string \<Rightarrow> string \<times> string option \<Rightarrow> build_state \<Rightarrow>
   (build_state, build_state) outcome" where
  "processFile 0 ev cfg =
     (\<lambda>resourceAlias resourcePathAndQuery st.
        if map_has (replacers st) resourceAlias then Done st else Diverged)"
| "processFile (Suc n) ev cfg = processFile_body n (processFile n ev cfg) ev cfg"


section \<open>Template build driver\<close>

text \<open>The body of the loop of \<open>bundle\<close> over the matches of one rendered template.\<close>

definition template_match ::
  "nat \<Rightarrow> env \<Rightarrow> 'a program_scheme \<Rightarrow> string \<times> string \<Rightarrow> build_state \<Rightarrow> (build_state, build_state) outcome" where
  "template_match n ev cfg m st =
     (let resourceAlias = snd m
      in case resolveAlias cfg (disk_of st) resourceAlias of
           None \<Rightarrow> Done st
         | Some resourcePathAndQuery \<Rightarrow>
             let resourcePath = fst resourcePathAndQuery;
                 querystring = snd resourcePathAndQuery;
                 ext = toLowerCase (path_extname resourcePath)
             in if ext = ''.js'' \<or> ext = ''.ts'' then
                  let inline = searchParams_has ev querystring ''inline'';
                      key = (if inline then fst m else resourceAlias)
                  in if map_has (replacers st) key then Done st
                     else if inline then
                       and_then (processScript n (processFile n ev cfg) ev cfg (Inl resourcePath) st)
                         (\<lambda>r. case fst r of
                                 None \<Rightarrow> Done (snd r)
                               | Some js \<Rightarrow> Done (table_set key js (snd r)))
                     else Done (st\<lparr> rawScripts := AList.update resourcePath resourceAlias (rawScripts st) \<rparr>)
                else processFile n ev cfg resourceAlias resourcePathAndQuery st)"

text \<open>
  The body of the loop of \<open>bundle\<close> over the template files: compile the template, write
  the compiled module to the temporary directory, import it and call its default export,
  then go through the references of the markup. A template without build output is skipped.
\<close>

definition bundle_template ::
  "nat \<Rightarrow> env \<Rightarrow> 'a program_scheme \<Rightarrow> string \<Rightarrow> build_state \<Rightarrow> (build_state, build_state) outcome" where
  "bundle_template n ev cfg name st =
     (let moduleExt = path_extname name;
          moduleTemp = path_join [cwd cfg, bundleDir cfg, tempDir cfg,
                                  replace moduleExt (''.'' @ date_now ev @ moduleExt) name];
          modulePath = path_join [cwd cfg, frontendDir cfg, name]
      in case bun_build ev (disk_of st) modulePath of
           Inl e \<Rightarrow> Threw e st
         | Inr None \<Rightarrow> Done st
         | Inr (Some built) \<Rightarrow>
             let st1 = write_file moduleTemp built st
             in (case import_default ev (disk_of st1) moduleTemp of
                   Inl e \<Rightarrow> Threw e st1
                 | Inr html \<Rightarrow>
                     and_then (for_each (template_match n ev cfg) (matchAll cfg html) st1)
                       (\<lambda>st2. Done (st2\<lparr> rawHTMLs := AList.update name html (rawHTMLs st2) \<rparr>))))"

text \<open>The body of the last loop of \<open>bundle\<close>: substitute, inject, format and write one markup blob.\<close>

definition write_markup ::
  "env \<Rightarrow> 'a program_scheme \<Rightarrow> string list \<Rightarrow> string \<times> string \<Rightarrow> build_state \<Rightarrow> (build_state, build_state) outcome" where
  "write_markup ev cfg inlines entry st =
     (let name = fst entry;
          html = snd entry;
          st1 = log_event (Substituted (Markup name)) st;
          output1 = substitute (replacers st) html;
          output2 = (if inlines \<noteq> [] then replace ''</head>'' (concat inlines @ ''</head>'') output1
                     else output1)
      in case prettier_format ev output2 of
           Inl e \<Rightarrow> Threw e st1
         | Inr output3 \<Rightarrow>
             let outName = replace (path_extname name) ''.html'' name
             in Done (write_file (path_join [cwd cfg, bundleDir cfg, outName]) output3 st1))"

definition initial_build :: "disk \<Rightarrow> build_state" where
  "initial_build d = \<lparr> disk_of = d, replacers = [], rawScripts = [], rawHTMLs = [], events = [] \<rparr>"

text \<open>The first part of \<open>bundle\<close>, up to the removal of the temporary directory: everything that fills the table.\<close>

definition bundle_process :: "nat \<Rightarrow> env \<Rightarrow> 'a program_scheme \<Rightarrow> disk \<Rightarrow> (build_state, build_state) outcome" where
  "bundle_process n ev cfg d =
     (let st0 = rm_tree (path_join [cwd cfg, bundleDir cfg]) (initial_build d)
      in and_then (for_each (bundle_template n ev cfg) (glob_templates ev (disk_of st0)) st0)
           (\<lambda>st1.
              and_then
                (if rawScripts st1 \<noteq> []
                 then and_then (processScript n (processFile n ev cfg) ev cfg (Inr (rawScripts st1)) st1)
                        (\<lambda>r. Done (snd r))
                 else Done st1)
                (\<lambda>st2. Done (rm_tree (path_join [cwd cfg, bundleDir cfg, tempDir cfg]) st2))))"

text \<open>The second part: the reload snippet, then the loop over the rendered markup.\<close>

definition bundle_write :: "env \<Rightarrow> 'a program_scheme \<Rightarrow> build_state \<Rightarrow> (build_state, build_state) outcome" where
  "bundle_write ev cfg st =
     and_then
       (if isAutoReload cfg
        then (case readFile (disk_of st) (path_join [dirname cfg, ''inline-scripts/auto-reload.ts'']) of
                Inl e \<Rightarrow> Threw e st
              | Inr js \<Rightarrow> Done [''<script>'' @ js @ ''</script>''])
        else Done [])
       (\<lambda>inlines. for_each (write_markup ev cfg inlines) (rawHTMLs st) st)"

text \<open>
  \<open>bundle()\<close>, from the disk it finds to the state it leaves. The listing of the output
  tree that ends \<open>bundle\<close> only prints, and is left out.
\<close>

definition run_bundle :: "nat \<Rightarrow> env \<Rightarrow> 'a program_scheme \<Rightarrow> disk \<Rightarrow> (build_state, build_state) outcome" where
  "run_bundle n ev cfg d = and_then (bundle_process n ev cfg d) (bundle_write ev cfg)"


section \<open>Dev loop controller\<close>

text \<open>
  The backend process as the operating system has it. A process that got the signal exits
  some polls later (\<open>Dying k\<close>: after \<open>k\<close> more sleeps of the poll loop) or never
  (\<open>Stubborn\<close>). \<open>killed\<close> of a \<open>Bun.Subprocess\<close> says that the process has exited.
\<close>

datatype proc_status = Running | Dying nat | Stubborn | Exited

text \<open>
  What the dev loop does, in order. \<open>Spawned p ps\<close> records with the new process \<open>p\<close> the
  processes \<open>ps\<close> that were alive when it was spawned.
\<close>

datatype dev_event =
    Built bool
  | Aborted nat
  | Killed nat
  | Polled nat bool
  | Spawned nat "nat list"
  | Pinged nat bool
  | Published nat

text \<open>
  The variables of \<open>dev\<close>, the disk and the processes. \<open>controllers\<close> holds the \<open>aborted\<close>
  flag of every \<open>AbortController\<close> made so far; \<open>autoReloadController\<close> is the last one.
\<close>

record dev_state =
  world :: disk
  previousFrontend :: "string list"
  previousBackend :: "string list"
  webServer :: "nat option"
  processes :: "(nat \<times> proc_status) list"
  autoReloadRevision :: nat
  controllers :: "bool list"
  dev_log :: "dev_event list"

text \<open>
  What the outside world does during one iteration of the loop: the changes to the disk
  during the sleep, how long a signalled backend takes to exit, whether a spawn succeeds,
  and whether the \<open>k\<close>-th connection attempt of the notify wait succeeds.
\<close>

record tick =
  edit :: "disk \<Rightarrow> disk"
  exit_delay :: "nat option"
  spawn_ok :: bool
  ping_ok :: "nat \<Rightarrow> bool"

definition dev_init :: "disk \<Rightarrow> dev_state" where
  "dev_init d =
     \<lparr> world = d, previousFrontend = [], previousBackend = [], webServer = None, processes = [],
       autoReloadRevision = 0, controllers = [False], dev_log = [] \<rparr>"

definition dev_event :: "dev_event \<Rightarrow> dev_state \<Rightarrow> dev_state" where
  "dev_event e st = st\<lparr> dev_log := dev_log st @ [e] \<rparr>"

text \<open>\<open>generateHash(file)\<close> and \<open>generateHashes(dir)\<close> of \<open>dev\<close>; \<open>readFileSync\<close> throws on a missing file.\<close>

definition generateHash_file :: "env \<Rightarrow> disk \<Rightarrow> string \<Rightarrow> error + string" where
  "generateHash_file ev d file =
     (case readFile d file of
        Inl e \<Rightarrow> Inl e
      | Inr content \<Rightarrow> Inr (file @ '':'' @ toString36 (unat (bun_hash ev content))))"

fun map_files :: "(string \<Rightarrow> error + string) \<Rightarrow> string list \<Rightarrow> error + string list" where
  "map_files f [] = Inr []"
| "map_files f (x # xs) =
     (case f x of
        Inl e \<Rightarrow> Inl e
      | Inr y \<Rightarrow> (case map_files f xs of Inl e \<Rightarrow> Inl e | Inr ys \<Rightarrow> Inr (y # ys)))"

definition generateHashes :: "env \<Rightarrow> disk \<Rightarrow> string \<Rightarrow> error + string list" where
  "generateHashes ev d dir = map_files (generateHash_file ev d) (glob_files ev d dir)"

text \<open>\<open>a.symmetricDifference(b)\<close> on sets held as lists; its size is positive when the list is not empty.\<close>

definition symmetricDifference :: "string list \<Rightarrow> string list \<Rightarrow> string list" where
  "symmetricDifference a b = filter (\<lambda>x. x \<notin> set b) a @ filter (\<lambda>x. x \<notin> set a) b"

text \<open>
  Lines 542 to 558 of \<open>dev\<close>: sleep, hash the frontend tree, compare, store the new set,
  and rebuild on a change; a build that throws is logged and the loop goes on. The result
  says whether the frontend changed.
\<close>

definition frontend_phase ::
  "nat \<Rightarrow> env \<Rightarrow> 'a program_scheme \<Rightarrow> tick \<Rightarrow> dev_state \<Rightarrow> (dev_state, bool \<times> dev_state) outcome" where
  "frontend_phase n ev cfg t st =
     (let st1 = st\<lparr> world := edit t (world st) \<rparr>
      in case generateHashes ev (world st1) (frontendDir cfg) of
           Inl e \<Rightarrow> Threw e st1
         | Inr hashes \<Rightarrow>
             let nextFrontend = remdups hashes;
                 isFrontendChanged = (symmetricDifference nextFrontend (previousFrontend st1) \<noteq> []);
                 st2 = st1\<lparr> previousFrontend := nextFrontend \<rparr>
             in if isFrontendChanged then
                  (case run_bundle n ev cfg (world st2) of
                     Diverged \<Rightarrow> Diverged
                   | Threw e b \<Rightarrow> Done (True, dev_event (Built False) (st2\<lparr> world := disk_of b \<rparr>))
                   | Done b \<Rightarrow> Done (True, dev_event (Built True) (st2\<lparr> world := disk_of b \<rparr>)))
                else Done (False, st2))"

definition alive :: "dev_state \<Rightarrow> nat list" where
  "alive st = map fst (filter (\<lambda>p. snd p \<noteq> Exited) (processes st))"

definition killed :: "dev_state \<Rightarrow> nat \<Rightarrow> bool" where
  "killed st p = (map_of (processes st) p = Some Exited)"

text \<open>\<open>webServer.kill("SIGINT")\<close>: a running process starts to exit, or ignores the signal.\<close>

definition kill :: "nat \<Rightarrow> tick \<Rightarrow> dev_state \<Rightarrow> dev_state" where
  "kill p t st =
     dev_event (Killed p)
       (st\<lparr> processes :=
              map (\<lambda>q. if fst q = p \<and> snd q = Running
                       then (p, case exit_delay t of None \<Rightarrow> Stubborn | Some k \<Rightarrow> Dying k)
                       else q) (processes st) \<rparr>)"

text \<open>\<open>Bun.sleep(10)\<close> in the poll loop: time passes for the processes.\<close>

definition sleep10 :: "dev_state \<Rightarrow> dev_state" where
  "sleep10 st =
     st\<lparr> processes :=
           map (\<lambda>q. case snd q of
                      Dying 0 \<Rightarrow> (fst q, Exited)
                    | Dying (Suc k) \<Rightarrow> (fst q, Dying k)
                    | _ \<Rightarrow> q) (processes st) \<rparr>"

text \<open>\<open>while (!webServer.killed) await Bun.sleep(10)\<close>; it runs for ever on a process that never exits.\<close>

primrec wait_killed :: "nat \<Rightarrow> nat \<Rightarrow> dev_state \<Rightarrow> (dev_state, dev_state) outcome" where
  "wait_killed 0 p st = Diverged"
| "wait_killed (Suc n) p st =
     (if killed st p then Done (dev_event (Polled p True) st)
      else wait_killed n p (sleep10 (dev_event (Polled p False) st)))"

text \<open>\<open>webServer = Bun.spawn(...)\<close>: a new process, with a process id not used before.\<close>

definition spawn :: "dev_state \<Rightarrow> dev_state" where
  "spawn st =
     (let p = length (processes st)
      in dev_event (Spawned p (alive st))
           (st\<lparr> processes := processes st @ [(p, Running)], webServer := Some p \<rparr>))"

text \<open>\<open>autoReloadController?.abort()\<close>.\<close>

definition abort :: "dev_state \<Rightarrow> dev_state" where
  "abort st =
     dev_event (Aborted (length (controllers st) - 1))
       (st\<lparr> controllers := (controllers st)[length (controllers st) - 1 := True] \<rparr>)"

text \<open>
  The loop of \<open>notify\<close>: until the signal of its controller is aborted, try to connect;
  publish the revision on success, sleep a second otherwise. Nothing else runs while the
  loop of \<open>dev\<close> awaits \<open>notify()\<close>.
\<close>

primrec notify_loop :: "nat \<Rightarrow> tick \<Rightarrow> nat \<Rightarrow> dev_state \<Rightarrow> (dev_state, dev_state) outcome" where
  "notify_loop 0 t k st = Diverged"
| "notify_loop (Suc n) t k st =
     (if last (controllers st) then Done st
      else if ping_ok t k
      then Done (dev_event (Published (autoReloadRevision st))
                   (dev_event (Pinged k True) (st\<lparr> autoReloadRevision := autoReloadRevision st + 1 \<rparr>)))
      else notify_loop n t (Suc k) (dev_event (Pinged k False) st))"

definition notify :: "nat \<Rightarrow> tick \<Rightarrow> dev_state \<Rightarrow> (dev_state, dev_state) outcome" where
  "notify n t st = notify_loop n t 0 (st\<lparr> controllers := controllers st @ [False] \<rparr>)"

text \<open>Lines 560 to 602 of \<open>dev\<close>.\<close>

definition backend_phase ::
  "nat \<Rightarrow> env \<Rightarrow> 'a program_scheme \<Rightarrow> tick \<Rightarrow> bool \<Rightarrow> dev_state \<Rightarrow> (dev_state, dev_state) outcome" where
  "backend_phase n ev cfg t isFrontendChanged st =
     (if backendLanguage cfg \<noteq> None \<and> backendLanguage cfg \<noteq> Some [] then
        (case generateHashes ev (world st) (bundleDir cfg) of
           Inl e \<Rightarrow> Threw e st
         | Inr h1 \<Rightarrow>
             (case generateHashes ev (world st) (backendDir cfg) of
                Inl e \<Rightarrow> Threw e st
              | Inr h2 \<Rightarrow>
                  let nextBackend = remdups (h1 @ h2);
                      isBackendChanged = (symmetricDifference nextBackend (previousBackend st) \<noteq> []);
                      st1 = st\<lparr> previousBackend := nextBackend \<rparr>
                  in if isFrontendChanged \<or> isBackendChanged then
                       and_then
                         (case webServer st1 of
                            None \<Rightarrow> Done (abort st1)
                          | Some p \<Rightarrow> wait_killed n p (kill p t (abort st1)))
                         (\<lambda>st2.
                            and_then
                              (if backendLanguage cfg = Some ''rust''
                               then (if spawn_ok t then Done (spawn st2)
                                     else Threw (CollaboratorError ''spawn'') st2)
                               else Done st2)
                              (\<lambda>st3. if isAutoReload cfg then notify n t st3 else Done st3))
                     else Done st1))
      else Done st)"

text \<open>One iteration of the \<open>while (true)\<close> of \<open>dev\<close>, and the iterations for a list of ticks.\<close>

definition dev_step :: "nat \<Rightarrow> env \<Rightarrow> 'a program_scheme \<Rightarrow> tick \<Rightarrow> dev_state \<Rightarrow> (dev_state, dev_state) outcome" where
  "dev_step n ev cfg t st =
     and_then (frontend_phase n ev cfg t st) (\<lambda>r. backend_phase n ev cfg t (fst r) (snd r))"

definition dev_loop :: "nat \<Rightarrow> env \<Rightarrow> 'a program_scheme \<Rightarrow> tick list \<Rightarrow> dev_state \<Rightarrow> (dev_state, dev_state) outcome" where
  "dev_loop n ev cfg ts st = for_each (dev_step n ev cfg) ts st"


section \<open>Properties of states and of logs\<close>

text \<open>
  A property holds where a computation ends: in the state it returns, or in the state at
  the throw. \<open>proj\<close> takes the state out of the result.
\<close>

definition ends_in :: "('s \<Rightarrow> bool) \<Rightarrow> ('a \<Rightarrow> 's) \<Rightarrow> ('s, 'a) outcome \<Rightarrow> bool" where
  "ends_in P proj m = (case m of Diverged \<Rightarrow> True | Threw e s \<Rightarrow> P s | Done x \<Rightarrow> P (proj x))"

definition is_markup_pass :: "event \<Rightarrow> bool" where
  "is_markup_pass e = (case e of Substituted (Markup _) \<Rightarrow> True | _ \<Rightarrow> False)"

definition is_pass :: "event \<Rightarrow> bool" where
  "is_pass e = (case e of Substituted _ \<Rightarrow> True | _ \<Rightarrow> False)"

definition is_table_set :: "event \<Rightarrow> bool" where
  "is_table_set e = (case e of TableSet _ \<Rightarrow> True | _ \<Rightarrow> False)"

text \<open>
  A property of build states that every step of the processing phase keeps: logging
  anything but a pass over markup, setting a table entry, writing a file, removing a tree,
  and changing the two collection maps.
\<close>

definition process_stable :: "(build_state \<Rightarrow> bool) \<Rightarrow> bool" where
  "process_stable P =
     (\<forall>st. P st \<longrightarrow>
        (\<forall>e. \<not> is_markup_pass e \<longrightarrow> P (log_event e st)) \<and>
        (\<forall>k v. P (table_set k v st)) \<and>
        (\<forall>p c. P (write_file p c st)) \<and>
        (\<forall>d. P (rm_tree d st)) \<and>
        (\<forall>m. P (st\<lparr> rawScripts := m \<rparr>)) \<and>
        (\<forall>m. P (st\<lparr> rawHTMLs := m \<rparr>)))"

text \<open>
  A property that every step of the processing phase keeps but the setting of an entry for
  a token in \<open>frozen\<close>; where the property holds, the frozen tokens are keys of the table.
\<close>

definition frozen_stable :: "(string \<Rightarrow> bool) \<Rightarrow> (build_state \<Rightarrow> bool) \<Rightarrow> bool" where
  "frozen_stable frozen P =
     (\<forall>st. P st \<longrightarrow>
        (\<forall>k. frozen k \<longrightarrow> map_has (replacers st) k) \<and>
        (\<forall>e. \<not> is_markup_pass e \<and> \<not> is_table_set e \<longrightarrow> P (log_event e st)) \<and>
        (\<forall>k v. \<not> frozen k \<longrightarrow> P (table_set k v st)) \<and>
        (\<forall>p c. P (write_file p c st)) \<and>
        (\<forall>d. P (rm_tree d st)) \<and>
        (\<forall>m. P (st\<lparr> rawScripts := m \<rparr>)) \<and>
        (\<forall>m. P (st\<lparr> rawHTMLs := m \<rparr>)))"

text \<open>A property that the writing phase keeps: logging a pass over markup, and writing a file.\<close>

definition write_stable :: "(build_state \<Rightarrow> bool) \<Rightarrow> bool" where
  "write_stable P =
     (\<forall>st. P st \<longrightarrow>
        (\<forall>e. is_markup_pass e \<longrightarrow> P (log_event e st)) \<and>
        (\<forall>p c. P (write_file p c st)))"

text \<open>The log of a build that ended, by returning or by throwing.\<close>

definition outcome_events :: "(build_state, build_state) outcome \<Rightarrow> event list" where
  "outcome_events m = (case m of Diverged \<Rightarrow> [] | Threw e st \<Rightarrow> events st | Done st \<Rightarrow> events st)"

definition outcome_table :: "(build_state, build_state) outcome \<Rightarrow> (string \<times> string) list" where
  "outcome_table m = (case m of Diverged \<Rightarrow> [] | Threw e st \<Rightarrow> replacers st | Done st \<Rightarrow> replacers st)"

definition is_done :: "('s, 'a) outcome \<Rightarrow> bool" where
  "is_done m = (case m of Done _ \<Rightarrow> True | _ \<Rightarrow> False)"

text \<open>No table entry is set after a pass of the given kind: the log read from its start.\<close>

fun no_set_after :: "(event \<Rightarrow> bool) \<Rightarrow> event list \<Rightarrow> bool" where
  "no_set_after pass [] = True"
| "no_set_after pass (e # es) =
     ((if pass e then list_all (\<lambda>x. \<not> is_table_set x) es else True) \<and> no_set_after pass es)"




text \<open>
  The backend handle as the log of the dev loop shows it: no process yet, a live process,
  a process that got the signal, a process seen dead. A spawn is in order when there is no
  live or signalled process and nothing was alive; a kill is for the live process; a poll
  is for the signalled one, and the poll that finds it dead confirms it.
\<close>

datatype handle_phase = NoHandle | Live nat | Signalled nat | ConfirmedDead nat

fun phase_step :: "handle_phase \<Rightarrow> dev_event \<Rightarrow> handle_phase option" where
  "phase_step NoHandle (Spawned p ps) = (if ps = [] then Some (Live p) else None)"
| "phase_step (ConfirmedDead q) (Spawned p ps) = (if ps = [] then Some (Live p) else None)"
| "phase_step (Live q) (Spawned p ps) = None"
| "phase_step (Signalled q) (Spawned p ps) = None"
| "phase_step (Live q) (Killed p) = (if p = q then Some (Signalled q) else None)"
| "phase_step ph (Killed p) = None"
| "phase_step (Signalled q) (Polled p dead) =
     (if p = q then Some (if dead then ConfirmedDead q else Signalled q) else None)"
| "phase_step ph (Polled p dead) = None"
| "phase_step ph e = Some ph"

fun log_phase :: "handle_phase \<Rightarrow> dev_event list \<Rightarrow> handle_phase option" where
  "log_phase ph [] = Some ph"
| "log_phase ph (e # es) = (case phase_step ph e of None \<Rightarrow> None | Some ph' \<Rightarrow> log_phase ph' es)"

text \<open>What a phase says about the state: the handle, and which processes can be alive.\<close>

definition phase_fits :: "handle_phase \<Rightarrow> dev_state \<Rightarrow> bool" where
  "phase_fits ph st =
     (case ph of
        NoHandle \<Rightarrow> webServer st = None \<and> alive st = []
      | Live p \<Rightarrow> webServer st = Some p \<and> set (alive st) \<subseteq> {p} \<and> map_of (processes st) p = Some Running
      | Signalled p \<Rightarrow> webServer st = Some p \<and> set (alive st) \<subseteq> {p}
      | ConfirmedDead p \<Rightarrow> webServer st = Some p \<and> alive st = [])"

text \<open>
  The log follows the protocol from the start, the state fits the phase the log has
  reached, and the process ids are the numbers below the number of processes.
\<close>

definition handle_ok :: "dev_state \<Rightarrow> bool" where
  "handle_ok st =
     (map fst (processes st) = [0..<length (processes st)] \<and>
      (case log_phase NoHandle (dev_log st) of
         None \<Rightarrow> False
       | Some ph \<Rightarrow> phase_fits ph st))"

text \<open>Between two iterations the handle is empty or holds a process that got no signal.\<close>

definition handle_settled :: "dev_state \<Rightarrow> bool" where
  "handle_settled st =
     (map fst (processes st) = [0..<length (processes st)] \<and>
      (case log_phase NoHandle (dev_log st) of
         Some NoHandle \<Rightarrow> phase_fits NoHandle st
       | Some (Live p) \<Rightarrow> phase_fits (Live p) st
       | _ \<Rightarrow> False))"

text \<open>The rebuilds in a log.\<close>

definition built_count :: "dev_event list \<Rightarrow> nat" where
  "built_count es = length (filter (\<lambda>e. case e of Built _ \<Rightarrow> True | _ \<Rightarrow> False) es)"

section \<open>An example project\<close>

text \<open>
  The configuration of \<open>example/bundler.config.ts\<close>, run as \<open>bundle\<close> in \<open>/project\<close>, on a
  disk with one template, an image, a stylesheet that refers to the image, a font, and a
  file left by an earlier build. The markup of the template refers to the stylesheet and
  then to the image.
\<close>

definition ex_cfg :: program where
  "ex_cfg =
     \<lparr> assetsDir = ''assets'', autoReload = True, backendDir = ''backend'', backendLanguage = None,
       bundleDir = ''.bundle'', frontendAlias = ''@'', frontendDir = ''frontend'',
       templateDir = ''templates'', tempDir = ''temp'',
       cwd = ''/project'', command = ''bundle'', dirname = ''/tool'' \<rparr>"

definition ex_markup :: string where
  "ex_markup =
     ''<link href='' @ [CHR 0x22] @ ''@/style.css'' @ [CHR 0x22] @ ''><img src=''
       @ [CHR 0x22] @ ''@/assets/logo.png'' @ [CHR 0x22] @ ''>''"

definition ex_css :: string where
  "ex_css = ''a{background:url('' @ [CHR 0x27] @ ''@/assets/logo.png'' @ [CHR 0x27] @ '')}''"

definition ex_disk :: disk where
  "ex_disk =
     [''/project/frontend/templates/index.ts'' \<mapsto> File ex_markup,
      ''/project/frontend/assets/logo.png'' \<mapsto> File ''PNG'',
      ''/project/frontend/style.css'' \<mapsto> File ex_css,
      ''/project/frontend/font.woff'' \<mapsto> File ''WOFF'',
      ''/project/.bundle/assets/old.js'' \<mapsto> File ''stale'']"

text \<open>
  Stand-ins for \<open>URLSearchParams\<close> and \<open>Number\<close>: they agree with the built-ins on queries
  without escapes and on \<open>null\<close>, the empty string and strings of decimal digits.
\<close>

definition plain_params :: "string option \<Rightarrow> (string \<times> string) list" where
  "plain_params q =
     (case q of
        None \<Rightarrow> []
      | Some s \<Rightarrow>
          map (\<lambda>kv. (takeWhile (\<lambda>c. c \<noteq> CHR ''='') kv, drop 1 (dropWhile (\<lambda>c. c \<noteq> CHR ''='') kv)))
            (filter (\<lambda>kv. kv \<noteq> []) (split_on CHR ''&'' s)))"

definition digit_value :: "char \<Rightarrow> nat" where
  "digit_value c = of_char c - 48"

definition is_digit :: "char \<Rightarrow> bool" where
  "is_digit c = (48 \<le> (of_char c :: nat) \<and> (of_char c :: nat) \<le> 57)"

definition plain_number :: "string option \<Rightarrow> js_number" where
  "plain_number v =
     (case v of
        None \<Rightarrow> Num 0
      | Some s \<Rightarrow>
          if list_all is_digit s
          then Num (of_nat (foldl (\<lambda>a c. 10 * a + digit_value c) 0 s))
          else NaN)"

text \<open>
  Collaborators for the example: a hash that depends on the length only, a resizer that
  marks what it resized, a stylesheet compiler and a formatter that change nothing, a
  script bundler that emits one entry chunk per entry, a template whose compiled
  module renders the text of its file, and a file glob that finds the stylesheet in the
  frontend tree.
\<close>

definition ex_env :: env where
  "ex_env =
     \<lparr> bun_hash = (\<lambda>b. 78364164096 + of_nat (length b)),
       searchParams_get = (\<lambda>q k. map_of (plain_params q) k),
       searchParams_has = (\<lambda>q k. map_of (plain_params q) k \<noteq> None),
       to_Number = plain_number,
       sharp_resize = (\<lambda>b w. Inr (''resized:'' @ b)),
       compile_css = (\<lambda>d p css. Inr css),
       rolldown = (\<lambda>d entries inline seen.
          Emit (map (\<lambda>e. \<lparr> is_chunk = True, isEntry = True, facadeModuleId = Some e,
                              fileName = path_parse_name e @ ''.js'', code = ''js'' \<rparr>) entries)),
       glob_templates = (\<lambda>d. [''templates/index.ts'']),
       bun_build = (\<lambda>d p. case d p of Some (File s) \<Rightarrow> Inr (Some s) | _ \<Rightarrow> Inr None),
       import_default = readFile,
       prettier_format = Inr,
       date_now = ''0'',
       glob_files = (\<lambda>d dir. if dir = ''frontend'' then [''/project/frontend/style.css''] else []) \<rparr>"

text \<open>
  The example with the output directory named with a separator at its end, and
  collaborators that find no template: the build only clears the output directory.
\<close>

definition ex_sep_cfg :: program where
  "ex_sep_cfg = ex_cfg\<lparr> bundleDir := ''.bundle/'' \<rparr>"

definition ex_bare_env :: env where
  "ex_bare_env = ex_env\<lparr> glob_templates := (\<lambda>d. []) \<rparr>"

definition ex_sep_final :: build_state where
  "ex_sep_final = rm_tree ''/project/.bundle/temp'' (rm_tree ''/project/.bundle/'' (initial_build ex_disk))"

text \<open>A hash function with a small value, and one that tells two inputs apart.\<close>

definition low_hash :: "string \<Rightarrow> 64 word" where
  "low_hash b = 35"


text \<open>
  The states of the example build: after the removal of the output directory, after the
  template, after the removal of the temporary directory, and at the end. \<open>logo_done\<close> is
  what the processing of the image adds to a state, \<open>css_done\<close> what the processing of
  the stylesheet adds, the image of its \<open>url\<close> included.
\<close>

definition logo_done :: "build_state \<Rightarrow> build_state" where
  "logo_done st =
     write_file ''/project/.bundle/assets/logo.10000003.png'' ''PNG''
       (table_set ''@/assets/logo.png'' ''/assets/logo.10000003.png''
         (log_event (Hashed ''/project/frontend/assets/logo.png'') st))"

definition ex_css_out :: string where
  "ex_css_out = ''a{background:url('' @ [CHR 0x27] @ ''/assets/logo.10000003.png'' @ [CHR 0x27] @ '')}''"

definition css_done :: "build_state \<Rightarrow> build_state" where
  "css_done st =
     write_file ''/project/.bundle/assets/style.1000001a.css'' ex_css_out
       (table_set ''@/style.css'' ''/assets/style.1000001a.css''
         (log_event (Hashed ''/project/frontend/style.css'')
           (log_event (Substituted (Stylesheet ''/project/frontend/style.css''))
             (logo_done (log_event (Compiled ''/project/frontend/style.css'') st)))))"


definition ex_st0 :: build_state where
  "ex_st0 = rm_tree ''/project/.bundle'' (initial_build ex_disk)"

definition ex_st1 :: build_state where
  "ex_st1 =
     (css_done (write_file ''/project/.bundle/temp/templates/index.0.ts'' ex_markup ex_st0))
       \<lparr> rawHTMLs := [(''templates/index.ts'', ex_markup)] \<rparr>"

definition ex_st2 :: build_state where
  "ex_st2 = rm_tree ''/project/.bundle/temp'' ex_st1"

definition ex_html_out :: string where
  "ex_html_out =
     ''<link href='' @ [CHR 0x22] @ ''/assets/style.1000001a.css'' @ [CHR 0x22] @ ''><img src=''
       @ [CHR 0x22] @ ''/assets/logo.10000003.png'' @ [CHR 0x22] @ ''>''"

definition ex_final :: build_state where
  "ex_final =
     write_file ''/project/.bundle/templates/index.html'' ex_html_out
       (log_event (Substituted (Markup ''templates/index.ts'')) ex_st2)"

text \<open>
  The example in dev mode with a Rust backend whose source is one file. The file glob
  finds that file and nothing in the frontend tree, so no tick rebuilds. In \<open>ex_tick\<close>
  nothing changes on the disk and the backend comes up at the second connection attempt;
  in \<open>ex_touch\<close> the backend source changes too; in \<open>dead_tick\<close> the backend never
  accepts a connection.
\<close>

definition ex_dev_cfg :: program where
  "ex_dev_cfg = ex_cfg\<lparr> backendLanguage := Some ''rust'', command := ''dev'' \<rparr>"

definition ex_backend_env :: env where
  "ex_backend_env =
     ex_env\<lparr> glob_files := (\<lambda>d dir. if dir = ''backend'' then [''/project/backend/main.rs''] else []) \<rparr>"

definition ex_backend_disk :: disk where
  "ex_backend_disk = ex_disk(''/project/backend/main.rs'' \<mapsto> File ''fn main(){}'')"

definition ex_tick :: tick where
  "ex_tick = \<lparr> edit = (\<lambda>d. d), exit_delay = Some 1, spawn_ok = True, ping_ok = (\<lambda>k. 1 \<le> k) \<rparr>"

definition ex_touch :: tick where
  "ex_touch = ex_tick\<lparr> edit := (\<lambda>d. d(''/project/backend/main.rs'' \<mapsto> File ''fn main(){ }'')) \<rparr>"

definition dead_tick :: tick where
  "dead_tick = \<lparr> edit = (\<lambda>d. d), exit_delay = Some 1, spawn_ok = True, ping_ok = (\<lambda>k. False) \<rparr>"

text \<open>The log of the dev loop after \<open>ex_tick\<close> and \<open>ex_touch\<close>.\<close>

definition ex_dev_log :: "dev_event list" where
  "ex_dev_log =
     [Aborted 0, Spawned 0 [], Pinged 0 False, Pinged 1 True, Published 0,
      Aborted 1, Killed 0, Polled 0 False, Polled 0 False, Polled 0 True, Spawned 1 [],
      Pinged 0 False, Pinged 1 True, Published 1]"

text \<open>The states of the dev loop after \<open>ex_tick\<close>, and after \<open>ex_tick\<close> and \<open>ex_touch\<close>.\<close>

definition ex_dev_st1 :: dev_state where
  "ex_dev_st1 =
     \<lparr> world = ex_backend_disk, previousFrontend = [],
       previousBackend = [''/project/backend/main.rs:1000000b''], webServer = Some 0,
       processes = [(0, Running)], autoReloadRevision = 1, controllers = [True, False],
       dev_log = [Aborted 0, Spawned 0 [], Pinged 0 False, Pinged 1 True, Published 0] \<rparr>"

definition ex_dev_st2 :: dev_state where
  "ex_dev_st2 =
     \<lparr> world = ex_backend_disk(''/project/backend/main.rs'' \<mapsto> File ''fn main(){ }''),
       previousFrontend = [],
       previousBackend = [''/project/backend/main.rs:1000000c''], webServer = Some 1,
       processes = [(0, Exited), (1, Running)], autoReloadRevision = 2,
       controllers = [True, True, False], dev_log = ex_dev_log \<rparr>"

text \<open>The log and the live processes where a run of the dev loop ended.\<close>

definition outcome_dev_log :: "(dev_state, dev_state) outcome \<Rightarrow> dev_event list" where
  "outcome_dev_log m = (case m of Diverged \<Rightarrow> [] | Threw e st \<Rightarrow> dev_log st | Done st \<Rightarrow> dev_log st)"

definition outcome_alive :: "(dev_state, dev_state) outcome \<Rightarrow> nat list" where
  "outcome_alive m = (case m of Diverged \<Rightarrow> [] | Threw e st \<Rightarrow> alive st | Done st \<Rightarrow> alive st)"



definition empty_seen :: "build_state \<Rightarrow> build_state" where
  "empty_seen st =
     log_event (Substituted (Stylesheet ''/project/frontend/empty.css''))
       (log_event (Compiled ''/project/frontend/empty.css'') st)"


text \<open>
  A project whose template shows one image twice, at its own size and then at the width
  100: the states of its build. \<open>wide_done\<close> is what the processing of the second reference
  adds to a state; \<open>ex_two_out\<close> is the markup written at the end.
\<close>

definition ex_two_markup :: string where
  "ex_two_markup =
     ''<img src='' @ [CHR 0x22] @ ''@/assets/logo.png'' @ [CHR 0x22] @ ''><img src=''
       @ [CHR 0x22] @ ''@/assets/logo.png?w=100'' @ [CHR 0x22] @ ''>''"

definition ex_two_disk :: disk where
  "ex_two_disk =
     [''/project/frontend/templates/index.ts'' \<mapsto> File ex_two_markup,
      ''/project/frontend/assets/logo.png'' \<mapsto> File ''PNG'']"

definition wide_done :: "build_state \<Rightarrow> build_state" where
  "wide_done st =
     write_file ''/project/.bundle/assets/logo.1000000b.png'' ''resized:PNG''
       (table_set ''@/assets/logo.png?w=100'' ''/assets/logo.1000000b.png''
         (log_event (Hashed ''/project/frontend/assets/logo.png'')
           (log_event (Resized ''/project/frontend/assets/logo.png'') st)))"

definition ex_two_out :: string where
  "ex_two_out =
     ''<img src='' @ [CHR 0x22] @ ''/assets/logo.10000003.png'' @ [CHR 0x22] @ ''><img src=''
       @ [CHR 0x22] @ ''/assets/logo.10000003.png?w=100'' @ [CHR 0x22] @ ''>''"

definition ex_two_final :: build_state where
  "ex_two_final =
     write_file ''/project/.bundle/templates/index.html'' ex_two_out
       (log_event (Substituted (Markup ''templates/index.ts''))
         (rm_tree ''/project/.bundle/temp''
           ((wide_done (logo_done
               (write_file ''/project/.bundle/temp/templates/index.0.ts'' ex_two_markup
                 (rm_tree ''/project/.bundle'' (initial_build ex_two_disk)))))
              \<lparr> rawHTMLs := [(''templates/index.ts'', ex_two_markup)] \<rparr>)))"

section \<open>Alias resolver: properties\<close>

lemma split_on_not_Nil: "split_on c s \<noteq> []"
  by (induction s) (auto split: list.splits)

lemma hd_split_on: "hd (split_on c s) = takeWhile (\<lambda>x. x \<noteq> c) s"
proof (induction s)
  case Nil
  show ?case by simp
next
  case (Cons x xs)
  then show ?case
    using split_on_not_Nil [of c xs] by (auto split: list.splits)
qed

lemma split_on_first:
  "split_on c s =
     takeWhile (\<lambda>x. x \<noteq> c) s #
       (if c \<in> set s then split_on c (tl (dropWhile (\<lambda>x. x \<noteq> c) s)) else [])"
proof (induction s)
  case Nil
  show ?case by simp
next
  case (Cons x xs)
  then show ?case
    using split_on_not_Nil [of c xs] by (cases "x = c") (auto split: list.splits)
qed

lemma tl_split_on:
  "tl (split_on c s) = (if c \<in> set s then split_on c (tl (dropWhile (\<lambda>x. x \<noteq> c) s)) else [])"
  using arg_cong [OF split_on_first [of c s], of tl] by simp

lemma second_split_on:
  "(case tl (split_on c s) of [] \<Rightarrow> None | q # _ \<Rightarrow> Some q) =
     (if c \<in> set s then Some (takeWhile (\<lambda>x. x \<noteq> c) (tl (dropWhile (\<lambda>x. x \<noteq> c) s))) else None)"
proof (cases "c \<in> set s")
  case True
  define t where "t = tl (dropWhile (\<lambda>x. x \<noteq> c) s)"
  have "tl (split_on c s) = split_on c t"
    using True by (simp add: tl_split_on t_def)
  moreover obtain r where "split_on c t = takeWhile (\<lambda>x. x \<noteq> c) t # r"
    using split_on_first [of c t] by blast
  ultimately show ?thesis
    using True by (simp add: t_def)
next
  case False
  then show ?thesis by (simp add: tl_split_on)
qed

lemma join_project_frontend: "path_join [''/project'', ''frontend''] = ''/project/frontend''"
  by code_simp

lemma join_logo:
  "path_join [''/project/frontend'', ''/assets/logo.png''] = ''/project/frontend/assets/logo.png''"
  by code_simp

lemma join_missing:
  "path_join [''/project/frontend'', ''/missing.png''] = ''/project/frontend/missing.png''"
  by code_simp

text \<open>
  C5. \<open>resolveAlias\<close> is a total function with an optional result: it has no failing
  outcome. Let the alias part of a token be what comes before its first question mark. The
  result is a path and a query exactly when the alias part starts with the alias prefix and
  a separator and the path made of the alias root and the rest of the alias part exists on
  the disk. The path returned is that path; the query returned is absent when the token has
  no question mark, and is what stands between the first question mark and the second (or
  the end) otherwise. In every other case the result is nothing. With the root
  \<open>/project/frontend\<close> and the prefix \<open>@\<close>: \<open>@/assets/logo.png\<close> resolves to
  \<open>/project/frontend/assets/logo.png\<close> without a query when that file exists, with the query
  \<open>w=100\<close> for \<open>@/assets/logo.png?w=100\<close>; \<open>other/assets/logo.png\<close> does not resolve, and
  \<open>@/missing.png\<close> does not resolve when the file is absent.
\<close>

theorem resolveAlias_succeeds_exactly_when:
  "resolveAlias cfg d token =
     (if startsWith (takeWhile (\<lambda>c. c \<noteq> CHR ''?'') token) (frontendAlias cfg @ ''/'') \<and>
         existsSync d (path_join [path_join [cwd cfg, frontendDir cfg],
                                  drop (length (frontendAlias cfg)) (takeWhile (\<lambda>c. c \<noteq> CHR ''?'') token)])
      then Some (path_join [path_join [cwd cfg, frontendDir cfg],
                            drop (length (frontendAlias cfg)) (takeWhile (\<lambda>c. c \<noteq> CHR ''?'') token)],
                 if CHR ''?'' \<in> set token
                 then Some (takeWhile (\<lambda>c. c \<noteq> CHR ''?'') (tl (dropWhile (\<lambda>c. c \<noteq> CHR ''?'') token)))
                 else None)
      else None)
   \<and> (d ''/project/frontend/assets/logo.png'' \<noteq> None \<longrightarrow>
        resolveAlias ex_cfg d ''@/assets/logo.png'' = Some (''/project/frontend/assets/logo.png'', None)
        \<and> resolveAlias ex_cfg d ''@/assets/logo.png?w=100''
            = Some (''/project/frontend/assets/logo.png'', Some ''w=100''))
   \<and> resolveAlias ex_cfg d ''other/assets/logo.png'' = None
   \<and> (d ''/project/frontend/missing.png'' = None \<longrightarrow> resolveAlias ex_cfg d ''@/missing.png'' = None)"
proof -
  have general:
    "resolveAlias cfg d token =
     (if startsWith (takeWhile (\<lambda>c. c \<noteq> CHR ''?'') token) (frontendAlias cfg @ ''/'') \<and>
         existsSync d (path_join [path_join [cwd cfg, frontendDir cfg],
                                  drop (length (frontendAlias cfg)) (takeWhile (\<lambda>c. c \<noteq> CHR ''?'') token)])
      then Some (path_join [path_join [cwd cfg, frontendDir cfg],
                            drop (length (frontendAlias cfg)) (takeWhile (\<lambda>c. c \<noteq> CHR ''?'') token)],
                 if CHR ''?'' \<in> set token
                 then Some (takeWhile (\<lambda>c. c \<noteq> CHR ''?'') (tl (dropWhile (\<lambda>c. c \<noteq> CHR ''?'') token)))
                 else None)
      else None)"
    by (simp add: resolveAlias_def Let_def hd_split_on second_split_on alias_find_def alias_replacement_def)
  have logo:
    "d ''/project/frontend/assets/logo.png'' \<noteq> None \<longrightarrow>
       resolveAlias ex_cfg d ''@/assets/logo.png'' = Some (''/project/frontend/assets/logo.png'', None)
       \<and> resolveAlias ex_cfg d ''@/assets/logo.png?w=100''
            = Some (''/project/frontend/assets/logo.png'', Some ''w=100'')"
    by (simp add: resolveAlias_def ex_cfg_def alias_find_def alias_replacement_def startsWith_def
          join_project_frontend join_logo existsSync_def)
  have other: "resolveAlias ex_cfg d ''other/assets/logo.png'' = None"
    by (simp add: resolveAlias_def ex_cfg_def alias_find_def startsWith_def)
  have missing:
    "d ''/project/frontend/missing.png'' = None \<longrightarrow> resolveAlias ex_cfg d ''@/missing.png'' = None"
    by (simp add: resolveAlias_def ex_cfg_def alias_find_def alias_replacement_def startsWith_def
          join_project_frontend join_missing existsSync_def)
  from general logo other missing show ?thesis by blast
qed

text \<open>
  On the example disk: the three tokens of the specification, and tokens with one query,
  with two question marks (the second piece is the query) and with an empty query.
\<close>

theorem resolveAlias_succeeds_exactly_when_witness:
  "resolveAlias ex_cfg ex_disk ''@/assets/logo.png'' = Some (''/project/frontend/assets/logo.png'', None)
   \<and> resolveAlias ex_cfg ex_disk ''@/assets/logo.png?w=100''
        = Some (''/project/frontend/assets/logo.png'', Some ''w=100'')
   \<and> resolveAlias ex_cfg ex_disk ''@/assets/logo.png?w=100?x''
        = Some (''/project/frontend/assets/logo.png'', Some ''w=100'')
   \<and> resolveAlias ex_cfg ex_disk ''@/assets/logo.png?''
        = Some (''/project/frontend/assets/logo.png'', Some [])
   \<and> resolveAlias ex_cfg ex_disk ''other/assets/logo.png'' = None
   \<and> resolveAlias ex_cfg ex_disk ''@/missing.png'' = None
   \<and> resolveAlias ex_cfg ex_disk ''@/missing.png?w=100'' = None
   \<and> ex_disk ''/project/frontend/assets/logo.png'' \<noteq> None
   \<and> ex_disk ''/project/frontend/missing.png'' = None"
proof -
  have e: "existsSync ex_disk ''/project/frontend/assets/logo.png''"
    "\<not> existsSync ex_disk ''/project/frontend/missing.png''"
    by (simp_all add: existsSync_def ex_disk_def)
  have c: "cwd ex_cfg = ''/project''" "frontendDir ex_cfg = ''frontend''" "frontendAlias ex_cfg = ''@''"
    by (simp_all add: ex_cfg_def)
  from resolveAlias_succeeds_exactly_when [of ex_cfg ex_disk "''@/assets/logo.png''"]
    resolveAlias_succeeds_exactly_when [of ex_cfg ex_disk "''@/assets/logo.png?w=100?x''"]
    resolveAlias_succeeds_exactly_when [of ex_cfg ex_disk "''@/assets/logo.png?''"]
    resolveAlias_succeeds_exactly_when [of ex_cfg ex_disk "''@/missing.png?w=100''"]
  show ?thesis
    using e by (simp add: c startsWith_def join_project_frontend join_logo join_missing ex_disk_def)
qed

section \<open>Content addresser: properties\<close>

lemma length_toString36: "k < length (toString36 n) \<longleftrightarrow> k = 0 \<or> 36 ^ k \<le> n"
proof (induction n arbitrary: k rule: toString36.induct)
  case (1 n)
  show ?case
  proof (cases "n < 36")
    case True
    have "k \<noteq> 0 \<Longrightarrow> (36::nat) ^ 1 \<le> 36 ^ k"
      by (rule power_increasing) auto
    moreover have "toString36 n = [digit36 n]"
      using True by (subst toString36.simps) simp
    ultimately show ?thesis using True by (cases "k = 0") auto
  next
    case False
    show ?thesis
    proof (cases k)
      case 0
      with False show ?thesis by (subst toString36.simps) simp
    next
      case (Suc j)
      have "j < length (toString36 (n div 36)) \<longleftrightarrow> j = 0 \<or> 36 ^ j \<le> n div 36"
        using "1.IH" [OF False] .
      moreover have "36 ^ j \<le> n div 36 \<longleftrightarrow> 36 ^ Suc j \<le> n"
        by (simp add: less_eq_div_iff_mult_less_eq mult.commute)
      moreover have "j = 0 \<Longrightarrow> 36 ^ Suc j \<le> n"
        using False by simp
      ultimately show ?thesis
        using False Suc by (subst toString36.simps) auto
    qed
  qed
qed

lemma set_toString36: "set (toString36 n) \<subseteq> set ''0123456789abcdefghijklmnopqrstuvwxyz''"
proof (induction n rule: toString36.induct)
  case (1 n)
  have d: "\<And>m. m < 36 \<Longrightarrow> digit36 m \<in> set ''0123456789abcdefghijklmnopqrstuvwxyz''"
    unfolding digit36_def by (rule nth_mem) simp
  show ?case
  proof (cases "n < 36")
    case True
    then show ?thesis using d [of n] by (subst toString36.simps) simp
  next
    case False
    then show ?thesis
      using "1.IH" d [of "n mod 36"] by (subst toString36.simps) simp
  qed
qed

text \<open>
  C2, as the code has it. \<open>generateHash\<close> is a function of the input: a non-empty text of at
  most 8 base-36 digits, of exactly 8 when the 64-bit hash is at least \<open>36 ^ 7\<close>. The route
  of \<open>generateRoute\<close> is \<open>/assetsDir/name.hash.ext\<close> for the name and the extension of the
  resource path, and for one resource path two digests give the same route only when they
  are the same digest.
\<close>

theorem generateHash_generateRoute:
  "length (generateHash h B) \<le> 8
   \<and> generateHash h B \<noteq> []
   \<and> set (generateHash h B) \<subseteq> set ''0123456789abcdefghijklmnopqrstuvwxyz''
   \<and> (length (generateHash h B) = 8) = (36 ^ 7 \<le> unat (h B))
   \<and> route (generateRoute cfg p (generateHash h B)) =
       ''/'' @ assetsDir cfg @ ''/'' @ path_parse_name p @ ''.'' @ generateHash h B @ path_extname p
   \<and> (route (generateRoute cfg p (generateHash h B1)) = route (generateRoute cfg p (generateHash h B2)))
       = (generateHash h B1 = generateHash h B2)"
proof -
  have len: "0 < length (toString36 (unat (h B)))"
    using length_toString36 [of 0 "unat (h B)"] by simp
  have eight: "(length (generateHash h B) = 8) = (36 ^ 7 \<le> unat (h B))"
    using length_toString36 [of 7 "unat (h B)"] by (auto simp: generateHash_def)
  have digits: "set (generateHash h B) \<subseteq> set ''0123456789abcdefghijklmnopqrstuvwxyz''"
    unfolding generateHash_def using set_toString36 [of "unat (h B)"] set_take_subset by fast
  have nonempty: "generateHash h B \<noteq> []"
    using len by (auto simp: generateHash_def)
  have r: "\<And>x. route (generateRoute cfg p x) =
       ''/'' @ assetsDir cfg @ ''/'' @ path_parse_name p @ ''.'' @ x @ path_extname p"
    by (simp add: generateRoute_def Let_def)
  have inj: "(route (generateRoute cfg p (generateHash h B1)) = route (generateRoute cfg p (generateHash h B2)))
       = (generateHash h B1 = generateHash h B2)"
    by (simp add: r)
  show ?thesis
    using eight digits nonempty r inj by (simp add: generateHash_def)
qed

text \<open>
  The claim C2 as it is written fails where the 64-bit hash is below \<open>36 ^ 7\<close>: the digest
  of the value 35 is the one character \<open>z\<close>, and \<open>slice(0, 8)\<close> does not pad it.
\<close>

theorem generateHash_not_fixed_width: "generateHash low_hash ''abc'' = ''z''"
  by (simp add: generateHash_def low_hash_def digit36_def toString36.simps)


section \<open>What every step of a build keeps\<close>

lemma and_then_simps [simp]:
  "and_then (Done x) f = f x"
  "and_then (Threw e s) f = Threw e s"
  "and_then Diverged f = Diverged"
  by (simp_all add: and_then_def)

lemma ends_in_simps [simp]:
  "ends_in P proj Diverged = True"
  "ends_in P proj (Threw e s) = P s"
  "ends_in P proj (Done x) = P (proj x)"
  by (simp_all add: ends_in_def)

lemma ends_in_and_then:
  assumes "ends_in P proj m" and "\<And>x. P (proj x) \<Longrightarrow> ends_in P proj' (f x)"
  shows "ends_in P proj' (and_then m f)"
  using assms by (cases m) auto

lemma ends_in_for_each:
  assumes "\<And>x s. P s \<Longrightarrow> ends_in P (\<lambda>s. s) (f x s)" and "P st"
  shows "ends_in P (\<lambda>s. s) (for_each f xs st)"
  using assms(2)
proof (induction xs arbitrary: st)
  case Nil
  then show ?case by simp
next
  case (Cons x xs)
  show ?case
    unfolding for_each.simps
    by (rule ends_in_and_then [where proj = "\<lambda>s. s" and P = P]) (use Cons assms(1) in auto)
qed

lemma stable_log: "process_stable P \<Longrightarrow> P st \<Longrightarrow> \<not> is_markup_pass e \<Longrightarrow> P (log_event e st)"
  by (simp add: process_stable_def)
lemma stable_set: "process_stable P \<Longrightarrow> P st \<Longrightarrow> P (table_set k v st)"
  by (simp add: process_stable_def)
lemma stable_write: "process_stable P \<Longrightarrow> P st \<Longrightarrow> P (write_file p c st)"
  by (simp add: process_stable_def)
lemma stable_rm: "process_stable P \<Longrightarrow> P st \<Longrightarrow> P (rm_tree d st)"
  by (simp add: process_stable_def)
lemma stable_rawScripts: "process_stable P \<Longrightarrow> P st \<Longrightarrow> P (st\<lparr> rawScripts := m \<rparr>)"
  by (simp add: process_stable_def)
lemma stable_rawHTMLs: "process_stable P \<Longrightarrow> P st \<Longrightarrow> P (st\<lparr> rawHTMLs := m \<rparr>)"
  by (simp add: process_stable_def)

text \<open>A property that every step keeps is kept with no token frozen.\<close>

lemma stable_frozen: "process_stable P \<Longrightarrow> frozen_stable (\<lambda>k. False) P"
  by (simp add: process_stable_def frozen_stable_def)

lemma frozen_has: "frozen_stable F P \<Longrightarrow> P st \<Longrightarrow> F k \<Longrightarrow> map_has (replacers st) k"
  by (simp add: frozen_stable_def)
lemma frozen_log:
  "frozen_stable F P \<Longrightarrow> P st \<Longrightarrow> \<not> is_markup_pass e \<Longrightarrow> \<not> is_table_set e \<Longrightarrow> P (log_event e st)"
  by (simp add: frozen_stable_def)
lemma frozen_set: "frozen_stable F P \<Longrightarrow> P st \<Longrightarrow> \<not> F k \<Longrightarrow> P (table_set k v st)"
  by (simp add: frozen_stable_def)
lemma frozen_write: "frozen_stable F P \<Longrightarrow> P st \<Longrightarrow> P (write_file p c st)"
  by (simp add: frozen_stable_def)
lemma frozen_rm: "frozen_stable F P \<Longrightarrow> P st \<Longrightarrow> P (rm_tree d st)"
  by (simp add: frozen_stable_def)
lemma frozen_rawScripts: "frozen_stable F P \<Longrightarrow> P st \<Longrightarrow> P (st\<lparr> rawScripts := m \<rparr>)"
  by (simp add: frozen_stable_def)
lemma frozen_rawHTMLs: "frozen_stable F P \<Longrightarrow> P st \<Longrightarrow> P (st\<lparr> rawHTMLs := m \<rparr>)"
  by (simp add: frozen_stable_def)

lemma not_markup_pass [simp]:
  "\<not> is_markup_pass (RmTree d)" "\<not> is_markup_pass (Write p)" "\<not> is_markup_pass (TableSet k)"
  "\<not> is_markup_pass (Resized p)" "\<not> is_markup_pass (Compiled p)" "\<not> is_markup_pass (Bundled es)"
  "\<not> is_markup_pass (Hashed p)" "\<not> is_markup_pass (Substituted (Stylesheet p))"
  "\<not> is_markup_pass (Substituted (Script p))"
  by (simp_all add: is_markup_pass_def)

lemma not_table_set [simp]:
  "\<not> is_table_set (RmTree d)" "\<not> is_table_set (Write p)"
  "\<not> is_table_set (Resized p)" "\<not> is_table_set (Compiled p)" "\<not> is_table_set (Bundled es)"
  "\<not> is_table_set (Hashed p)" "\<not> is_table_set (Substituted b)"
  by (simp_all add: is_table_set_def)

lemma processMatches_keeps:
  assumes "\<And>a r s. P s \<Longrightarrow> ends_in P (\<lambda>s. s) (pf a r s)" and "P st"
  shows "ends_in P (\<lambda>s. s) (processMatches pf cfg ms st)"
  unfolding processMatches_def
  by (rule ends_in_for_each [where P = P]) (use assms in \<open>auto simp: Let_def split: option.splits\<close>)

lemma processCss_keeps:
  assumes "frozen_stable F P" and "\<And>a r s. P s \<Longrightarrow> ends_in P (\<lambda>s. s) (pf a r s)" and "P st"
  shows "ends_in P snd (processCss pf ev cfg p st)"
proof -
  have "ends_in P snd (and_then (processMatches pf cfg (matchAll cfg css) (log_event (Compiled p) st))
         (\<lambda>st'. Done (substitute (replacers st') css, log_event (Substituted (Stylesheet p)) st')))" for css
    by (rule ends_in_and_then [where proj = "\<lambda>s. s" and P = P])
       (use assms frozen_log [OF assms(1)] in \<open>auto intro!: processMatches_keeps [where P = P]\<close>)
  then show ?thesis
    using assms(3) by (auto simp: processCss_def split: sum.splits)
qed

lemma transform_handler_keeps:
  assumes "frozen_stable F P" and "\<And>a r s. P s \<Longrightarrow> ends_in P (\<lambda>s. s) (pf a r s)" and "P st"
  shows "ends_in P snd (transform_handler pf cfg src mid st)"
proof -
  have "ends_in P snd (and_then (processMatches pf cfg (matchAll cfg src) st)
         (\<lambda>st'. Done (substitute (replacers st') src, log_event (Substituted (Script mid)) st')))"
    by (rule ends_in_and_then [where proj = "\<lambda>s. s" and P = P])
       (use assms frozen_log [OF assms(1)] in \<open>auto intro!: processMatches_keeps [where P = P]\<close>)
  then show ?thesis
    using assms(3) by (auto simp: transform_handler_def)
qed

lemma run_rolldown_keeps:
  assumes "frozen_stable F P" and "\<And>a r s. P s \<Longrightarrow> ends_in P (\<lambda>s. s) (pf a r s)" and "P st"
  shows "ends_in P snd (run_rolldown n pf ev cfg entries inline seen st)"
  using assms(3)
proof (induction n arbitrary: seen st)
  case 0
  show ?case by simp
next
  case (Suc n)
  show ?case
  proof (cases "rolldown ev (disk_of st) entries inline seen")
    case (Load mid src)
    have "ends_in P snd (and_then (transform_handler pf cfg src mid st)
            (\<lambda>r. run_rolldown n pf ev cfg entries inline (seen @ [(mid, fst r)]) (snd r)))"
      by (rule ends_in_and_then [where proj = snd and P = P])
         (use assms(1,2) Suc in \<open>auto intro!: transform_handler_keeps [where P = P and F = F]\<close>)
    with Load show ?thesis by simp
  next
    case (Emit out)
    with Suc.prems show ?thesis by simp
  next
    case (Abort e)
    with Suc.prems show ?thesis by simp
  qed
qed

lemma foldl_keeps:
  assumes "\<And>s x. P s \<Longrightarrow> P (f s x)" and "P st"
  shows "P (foldl f st xs)"
  using assms(2) by (induction xs arbitrary: st) (simp_all add: assms(1))

text \<open>The entries that a run of \<open>processScript\<close> sets are for tokens of its input map.\<close>

lemma set_entry_route_keeps:
  assumes "frozen_stable F P" and "P st" and "\<forall>a \<in> snd ` set m. \<not> F a"
  shows "P (set_entry_route cfg m st c)"
proof -
  have "\<not> F a" if "map_of m fid = Some a" for fid a
    using assms(3) map_of_SomeD [OF that] by force
  then show ?thesis
    using assms(2) frozen_set [OF assms(1,2)]
    by (simp add: set_entry_route_def split: option.splits)
qed

lemma processScript_keeps:
  assumes "frozen_stable F P" and "\<And>a r s. P s \<Longrightarrow> ends_in P (\<lambda>s. s) (pf a r s)" and "P st"
    and "\<forall>a \<in> snd ` set (case input of Inl p \<Rightarrow> [] | Inr m \<Rightarrow> m). \<not> F a"
  shows "ends_in P snd (processScript n pf ev cfg input st)"
  unfolding processScript_def Let_def
proof (rule ends_in_and_then [where proj = snd and P = P])
  show "ends_in P snd (run_rolldown n pf ev cfg (case input of Inl p \<Rightarrow> [p] | Inr m \<Rightarrow> map fst m)
          (isl input) [] (log_event (Bundled (case input of Inl p \<Rightarrow> [p] | Inr m \<Rightarrow> map fst m)) st))"
    by (rule run_rolldown_keeps [where P = P and F = F]) (use assms frozen_log [OF assms(1)] in auto)
next
  fix r :: "chunk list \<times> build_state"
  assume r: "P (snd r)"
  define dir where "dir = path_join [cwd cfg, bundleDir cfg, if isl input then tempDir cfg else assetsDir cfg]"
  have w: "P (foldl (\<lambda>s c. write_file (path_join [dir, fileName c]) (code c) s) (snd r) (fst r))"
    by (rule foldl_keeps [where P = P]) (use frozen_write [OF assms(1)] r in auto)
  have e: "P (foldl (set_entry_route cfg m) (foldl (\<lambda>s c. write_file (path_join [dir, fileName c]) (code c) s) (snd r) (fst r)) (fst r))"
    if "input = Inr m" for m
    by (rule foldl_keeps [where P = P]) (use set_entry_route_keeps [OF assms(1)] w assms(4) that in auto)
  show "ends_in P snd
          (case input of
             Inl p \<Rightarrow>
               (case fst r of
                  [] \<Rightarrow> Threw (CollaboratorError ''rolldown'')
                         (foldl (\<lambda>s c. write_file (path_join [path_join [cwd cfg, bundleDir cfg, if isl input then tempDir cfg else assetsDir cfg], fileName c]) (code c) s) (snd r) (fst r))
                | c # _ \<Rightarrow> Done (Some (code c),
                         foldl (\<lambda>s c. write_file (path_join [path_join [cwd cfg, bundleDir cfg, if isl input then tempDir cfg else assetsDir cfg], fileName c]) (code c) s) (snd r) (fst r)))
           | Inr m \<Rightarrow> Done (None, foldl (set_entry_route cfg m)
                         (foldl (\<lambda>s c. write_file (path_join [path_join [cwd cfg, bundleDir cfg, if isl input then tempDir cfg else assetsDir cfg], fileName c]) (code c) s) (snd r) (fst r)) (fst r)))"
    using w e unfolding dir_def by (auto split: sum.splits list.splits)
qed

lemma processImage_keeps:
  assumes "frozen_stable F P" and "P st"
  shows "ends_in P snd (processImage ev p q st)"
  using assms(2) frozen_log [OF assms(1)]
  by (auto simp: processImage_def Let_def split: sum.splits)

lemma store_artifact_keeps:
  assumes "frozen_stable F P" and "P st" and "\<not> F a"
  shows "P (store_artifact ev cfg a p x st)"
  using assms(2,3) frozen_write [OF assms(1)] frozen_set [OF assms(1)] frozen_log [OF assms(1)]
  by (simp add: store_artifact_def Let_def)

text \<open>
  \<open>processFile\<close> sets an entry only for its own token, and only when the token was no key
  at the start: a frozen token is a key, so the call returns at the check.
\<close>

lemma processFile_body_keeps:
  assumes "frozen_stable F P" and "\<And>a r s. P s \<Longrightarrow> ends_in P (\<lambda>s. s) (pf a r s)" and "P st"
  shows "ends_in P (\<lambda>s. s) (processFile_body n pf ev cfg a rpq st)"
proof (cases "map_has (replacers st) a")
  case True
  with assms(3) show ?thesis by (simp add: processFile_body_def)
next
  case False
  with frozen_has [OF assms(1,3)] have nf: "\<not> F a" by blast
  have s: "ends_in P (\<lambda>s. s) (and_then (processScript n pf ev cfg (Inr [(fst rpq, a)]) st) (\<lambda>r. Done (snd r)))"
    by (rule ends_in_and_then [where proj = snd and P = P])
       (use assms nf in \<open>auto intro!: processScript_keeps [where P = P and F = F]\<close>)
  have i: "ends_in P (\<lambda>s. s) (and_then (processImage ev (fst rpq) (snd rpq) st)
            (\<lambda>r. Done (store_artifact ev cfg a (fst rpq) (Bytes (fst r)) (snd r))))"
    by (rule ends_in_and_then [where proj = snd and P = P])
       (use assms nf store_artifact_keeps [OF assms(1)] in \<open>auto intro!: processImage_keeps [where P = P and F = F]\<close>)
  have c: "ends_in P (\<lambda>s. s) (and_then (processCss pf ev cfg (fst rpq) st)
            (\<lambda>r. Done (store_artifact ev cfg a (fst rpq) (Text (fst r)) (snd r))))"
    by (rule ends_in_and_then [where proj = snd and P = P])
       (use assms nf store_artifact_keeps [OF assms(1)] in \<open>auto intro!: processCss_keeps [where P = P and F = F]\<close>)
  show ?thesis
    using s i c assms(3) by (simp add: processFile_body_def Let_def)
qed

lemma processFile_keeps:
  assumes "frozen_stable F P" and "P st"
  shows "ends_in P (\<lambda>s. s) (processFile n ev cfg a rpq st)"
  using assms(2)
proof (induction n arbitrary: a rpq st)
  case 0
  then show ?case by simp
next
  case (Suc n)
  show ?case
    unfolding processFile.simps
    by (rule processFile_body_keeps [where P = P and F = F]) (use assms(1) Suc in auto)
qed

lemma write_stable_log: "write_stable P \<Longrightarrow> P st \<Longrightarrow> is_markup_pass e \<Longrightarrow> P (log_event e st)"
  by (simp add: write_stable_def)
lemma write_stable_write: "write_stable P \<Longrightarrow> P st \<Longrightarrow> P (write_file p c st)"
  by (simp add: write_stable_def)

text \<open>The markup loop sets an entry only for an inline script, after its own check.\<close>

lemma template_match_keeps:
  assumes "frozen_stable F P" and "P st"
  shows "ends_in P (\<lambda>s. s) (template_match n ev cfg m st)"
proof -
  have pf: "\<And>a r s. P s \<Longrightarrow> ends_in P (\<lambda>s. s) (processFile n ev cfg a r s)"
    by (rule processFile_keeps [OF assms(1)])
  have inl: "ends_in P (\<lambda>s. s)
       (and_then (processScript n (processFile n ev cfg) ev cfg (Inl p) st)
          (\<lambda>r. case fst r of None \<Rightarrow> Done (snd r) | Some js \<Rightarrow> Done (table_set key js (snd r))))"
    if "\<not> map_has (replacers st) key" for p key
  proof -
    from that frozen_has [OF assms(1,2)] have nf: "\<not> F key" by blast
    show ?thesis
      by (rule ends_in_and_then [where proj = snd and P = P])
         (use assms pf nf frozen_set [OF assms(1)] in
           \<open>auto intro!: processScript_keeps [where P = P and F = F] split: option.splits\<close>)
  qed
  show ?thesis
    using inl pf assms(2) frozen_rawScripts [OF assms(1)]
    by (simp add: template_match_def Let_def split: option.splits)
qed

lemma bundle_template_keeps:
  assumes "frozen_stable F P" and "P st"
  shows "ends_in P (\<lambda>s. s) (bundle_template n ev cfg name st)"
proof -
  have loop: "ends_in P (\<lambda>s. s)
       (and_then (for_each (template_match n ev cfg) ms st1)
          (\<lambda>st2. Done (st2\<lparr> rawHTMLs := AList.update name html (rawHTMLs st2) \<rparr>)))"
    if "P st1" for ms st1 html
    by (rule ends_in_and_then [where proj = "\<lambda>s. s" and P = P])
       (use that assms(1) frozen_rawHTMLs [OF assms(1)] in
         \<open>auto intro!: ends_in_for_each [where P = P] template_match_keeps [where P = P and F = F]\<close>)
  show ?thesis
    using loop assms(2) frozen_write [OF assms(1)]
    by (simp add: bundle_template_def Let_def split: sum.splits option.splits)
qed

lemma bundle_process_keeps:
  assumes "process_stable P" and "P (rm_tree (path_join [cwd cfg, bundleDir cfg]) (initial_build d))"
  shows "ends_in P (\<lambda>s. s) (bundle_process n ev cfg d)"
  unfolding bundle_process_def Let_def
proof (rule ends_in_and_then [where proj = "\<lambda>s. s" and P = P])
  show "ends_in P (\<lambda>s. s)
     (for_each (bundle_template n ev cfg)
        (glob_templates ev (disk_of (rm_tree (path_join [cwd cfg, bundleDir cfg]) (initial_build d))))
        (rm_tree (path_join [cwd cfg, bundleDir cfg]) (initial_build d)))"
    by (rule ends_in_for_each [where P = P])
       (use assms stable_frozen [OF assms(1)] in
         \<open>auto intro!: bundle_template_keeps [where P = P and F = "\<lambda>k. False"]\<close>)
next
  fix st1 assume p: "P st1"
  have pf: "\<And>a r s. P s \<Longrightarrow> ends_in P (\<lambda>s. s) (processFile n ev cfg a r s)"
    by (rule processFile_keeps [OF stable_frozen [OF assms(1)]])
  have batch: "ends_in P (\<lambda>s. s)
      (if rawScripts st1 \<noteq> []
       then and_then (processScript n (processFile n ev cfg) ev cfg (Inr (rawScripts st1)) st1)
              (\<lambda>r. Done (snd r))
       else Done st1)"
  proof (cases "rawScripts st1 \<noteq> []")
    case True
    have "ends_in P (\<lambda>s. s)
        (and_then (processScript n (processFile n ev cfg) ev cfg (Inr (rawScripts st1)) st1)
              (\<lambda>r. Done (snd r)))"
      by (rule ends_in_and_then [where proj = snd and P = P])
         (use stable_frozen [OF assms(1)] pf p in
           \<open>auto intro!: processScript_keeps [where P = P and F = "\<lambda>k. False"]\<close>)
    with True show ?thesis by simp
  next
    case False
    with p show ?thesis by simp
  qed
  show "ends_in P (\<lambda>s. s)
     (and_then
        (if rawScripts st1 \<noteq> []
         then and_then (processScript n (processFile n ev cfg) ev cfg (Inr (rawScripts st1)) st1)
                (\<lambda>r. Done (snd r))
         else Done st1)
        (\<lambda>st2. Done (rm_tree (path_join [cwd cfg, bundleDir cfg, tempDir cfg]) st2)))"
    by (rule ends_in_and_then [where proj = "\<lambda>s. s" and P = P])
       (use batch stable_rm [OF assms(1)] in auto)
qed

lemma write_markup_keeps:
  assumes "write_stable P" and "P st"
  shows "ends_in P (\<lambda>s. s) (write_markup ev cfg inlines entry st)"
  using assms(2) write_stable_log [OF assms(1)] write_stable_write [OF assms(1)]
  by (simp add: write_markup_def Let_def is_markup_pass_def split: sum.splits)

lemma bundle_write_keeps:
  assumes "write_stable P" and "P st"
  shows "ends_in P (\<lambda>s. s) (bundle_write ev cfg st)"
proof -
  have loop: "ends_in P (\<lambda>s. s) (for_each (write_markup ev cfg inlines) (rawHTMLs st) st)" for inlines
    by (rule ends_in_for_each [where P = P])
       (use assms in \<open>auto intro!: write_markup_keeps [where P = P]\<close>)
  show ?thesis
    using loop assms(2) by (simp add: bundle_write_def split: sum.splits)
qed

lemma run_bundle_keeps:
  assumes "process_stable P" and "write_stable Q" and "\<And>s. P s \<Longrightarrow> Q s"
    and "P (rm_tree (path_join [cwd cfg, bundleDir cfg]) (initial_build d))"
  shows "ends_in Q (\<lambda>s. s) (run_bundle n ev cfg d)"
proof (cases "bundle_process n ev cfg d")
  case Diverged
  then show ?thesis by (simp add: run_bundle_def)
next
  case (Threw e s)
  with bundle_process_keeps [OF assms(1,4), of n ev] assms(3) show ?thesis
    by (simp add: run_bundle_def)
next
  case (Done s)
  with bundle_process_keeps [OF assms(1,4), of n ev] assms(3) have "Q s" by simp
  with Done bundle_write_keeps [OF assms(2)] show ?thesis
    by (simp add: run_bundle_def)
qed


section \<open>The example build, step by step\<close>

lemma fields_log_event [simp]:
  "disk_of (log_event e st) = disk_of st" "replacers (log_event e st) = replacers st"
  "rawScripts (log_event e st) = rawScripts st" "rawHTMLs (log_event e st) = rawHTMLs st"
  "events (log_event e st) = events st @ [e]"
  by (simp_all add: log_event_def)

lemma fields_table_set [simp]:
  "disk_of (table_set k v st) = disk_of st" "replacers (table_set k v st) = AList.update k v (replacers st)"
  "rawScripts (table_set k v st) = rawScripts st" "rawHTMLs (table_set k v st) = rawHTMLs st"
  "events (table_set k v st) = events st @ [TableSet k]"
  by (simp_all add: table_set_def)

lemma fields_write_file [simp]:
  "disk_of (write_file p c st) = (disk_of st)(p \<mapsto> File c)" "replacers (write_file p c st) = replacers st"
  "rawScripts (write_file p c st) = rawScripts st" "rawHTMLs (write_file p c st) = rawHTMLs st"
  "events (write_file p c st) = events st @ [Write p]"
  by (simp_all add: write_file_def)

lemma fields_rm_tree [simp]:
  "disk_of (rm_tree d st) = (\<lambda>p. if p = dir_path d \<or> inside d p then None else disk_of st p)"
  "replacers (rm_tree d st) = replacers st"
  "rawScripts (rm_tree d st) = rawScripts st" "rawHTMLs (rm_tree d st) = rawHTMLs st"
  "events (rm_tree d st) = events st @ [RmTree d]"
  by (simp_all add: rm_tree_def)

lemma fields_initial_build [simp]:
  "disk_of (initial_build d) = d" "replacers (initial_build d) = []"
  "rawScripts (initial_build d) = []" "rawHTMLs (initial_build d) = []" "events (initial_build d) = []"
  by (simp_all add: initial_build_def)

lemma ex_paths:
  "path_join [''/project'', ''.bundle''] = ''/project/.bundle''"
  "path_join [''/project'', ''.bundle'', ''temp''] = ''/project/.bundle/temp''"
  "path_join [''/project'', ''frontend''] = ''/project/frontend''"
  "path_join [''/project'', ''frontend'', ''templates/index.ts''] = ''/project/frontend/templates/index.ts''"
  "path_join [''/project'', ''.bundle'', ''temp'', ''templates/index.0.ts''] = ''/project/.bundle/temp/templates/index.0.ts''"
  "path_join [''/project'', ''.bundle'', ''templates/index.html''] = ''/project/.bundle/templates/index.html''"
  "path_join [''/project'', ''.bundle'', ''assets'', ''style.1000001a.css''] = ''/project/.bundle/assets/style.1000001a.css''"
  "path_join [''/project'', ''.bundle'', ''assets'', ''logo.10000003.png''] = ''/project/.bundle/assets/logo.10000003.png''"
  "path_join [''/project/frontend'', ''/style.css''] = ''/project/frontend/style.css''"
  "path_join [''/project/frontend'', ''/assets/logo.png''] = ''/project/frontend/assets/logo.png''"
  by code_simp+

lemma ex_names:
  "path_extname ''templates/index.ts'' = ''.ts''"
  "replace ''.ts'' ''.0.ts'' ''templates/index.ts'' = ''templates/index.0.ts''"
  "replace ''.ts'' ''.html'' ''templates/index.ts'' = ''templates/index.html''"
  "toLowerCase ''.css'' = ''.css''"
  "toLowerCase ''.png'' = ''.png''"
  "path_extname ''/project/frontend/style.css'' = ''.css''"
  "path_parse_name ''/project/frontend/style.css'' = ''style''"
  "path_extname ''/project/frontend/assets/logo.png'' = ''.png''"
  "path_parse_name ''/project/frontend/assets/logo.png'' = ''logo''"
  by code_simp+

lemma ex_scan:
  "matchAll ex_cfg ex_markup =
     [([CHR 0x22] @ ''@/style.css'' @ [CHR 0x22], ''@/style.css''),
      ([CHR 0x22] @ ''@/assets/logo.png'' @ [CHR 0x22], ''@/assets/logo.png'')]"
  "matchAll ex_cfg ex_css = [([CHR 0x27] @ ''@/assets/logo.png'' @ [CHR 0x27], ''@/assets/logo.png'')]"
  by code_simp+

lemma ex_hash:
  "generateHash (bun_hash ex_env) ''PNG'' = ''10000003''"
  "generateHash (bun_hash ex_env) ex_css_out = ''1000001a''"
  by (simp_all add: generateHash_def ex_env_def ex_css_out_def toString36.simps digit36_def)

lemma ex_css_out_not_empty: "ex_css_out \<noteq> []"
  by (simp add: ex_css_out_def)

lemma ex_cfg_fields [simp]:
  "cwd ex_cfg = ''/project''" "bundleDir ex_cfg = ''.bundle''" "assetsDir ex_cfg = ''assets''"
  "tempDir ex_cfg = ''temp''" "frontendDir ex_cfg = ''frontend''" "frontendAlias ex_cfg = ''@''"
  "isAutoReload ex_cfg = False"
  by (simp_all add: ex_cfg_def isAutoReload_def)

lemma ex_env_fields [simp]:
  "compile_css ex_env d p css = Inr css"
  "glob_templates ex_env d = [''templates/index.ts'']"
  "bun_build ex_env d p = (case d p of Some (File s) \<Rightarrow> Inr (Some s) | _ \<Rightarrow> Inr None)"
  "import_default ex_env = readFile"
  "prettier_format ex_env = Inr"
  "date_now ex_env = ''0''"
  "to_Number ex_env (searchParams_get ex_env None k) = Num 0"
  by (simp_all add: ex_env_def plain_params_def plain_number_def)

lemma ex_resolve_css:
  "d ''/project/frontend/style.css'' \<noteq> None \<Longrightarrow>
   resolveAlias ex_cfg d ''@/style.css'' = Some (''/project/frontend/style.css'', None)"
  by (simp add: resolveAlias_def alias_find_def alias_replacement_def startsWith_def ex_paths existsSync_def)

lemma ex_resolve_logo:
  "d ''/project/frontend/assets/logo.png'' \<noteq> None \<Longrightarrow>
   resolveAlias ex_cfg d ''@/assets/logo.png'' = Some (''/project/frontend/assets/logo.png'', None)"
  by (simp add: resolveAlias_def alias_find_def alias_replacement_def startsWith_def ex_paths existsSync_def)

lemma ex_processFile_logo:
  assumes "\<not> map_has (replacers st) ''@/assets/logo.png''"
    and "disk_of st ''/project/frontend/assets/logo.png'' = Some (File ''PNG'')"
  shows "processFile (Suc n) ex_env ex_cfg ''@/assets/logo.png'' (''/project/frontend/assets/logo.png'', None) st
     = Done (logo_done st)"
  using assms
  by (simp add: processFile_body_def Let_def ex_names processImage_def readFile_def
        truthy_number_def isNaN_def store_artifact_def truthy_data_def content_of_def
        ex_hash generateRoute_def ex_paths logo_done_def)

lemma fields_logo_done [simp]:
  "replacers (logo_done st) = AList.update ''@/assets/logo.png'' ''/assets/logo.10000003.png'' (replacers st)"
  "rawScripts (logo_done st) = rawScripts st" "rawHTMLs (logo_done st) = rawHTMLs st"
  "disk_of (logo_done st) = (disk_of st)(''/project/.bundle/assets/logo.10000003.png'' \<mapsto> File ''PNG'')"
  by (simp_all add: logo_done_def)

lemma ex_subst_css:
  "substitute [(''@/assets/logo.png'', ''/assets/logo.10000003.png'')] ex_css = ex_css_out"
  by code_simp

lemma ex_processCss:
  assumes "replacers st = []" and "disk_of st ''/project/frontend/style.css'' = Some (File ex_css)"
    and "disk_of st ''/project/frontend/assets/logo.png'' = Some (File ''PNG'')"
  shows "processCss (processFile (Suc n) ex_env ex_cfg) ex_env ex_cfg ''/project/frontend/style.css'' st
     = Done (ex_css_out,
             log_event (Substituted (Stylesheet ''/project/frontend/style.css''))
               (logo_done (log_event (Compiled ''/project/frontend/style.css'') st)))"
proof -
  let ?st1 = "log_event (Compiled ''/project/frontend/style.css'') st"
  have logo: "processFile (Suc n) ex_env ex_cfg ''@/assets/logo.png'' (''/project/frontend/assets/logo.png'', None) ?st1
     = Done (logo_done ?st1)"
    by (rule ex_processFile_logo) (use assms in \<open>simp_all add: map_has_def\<close>)
  have r: "resolveAlias ex_cfg (disk_of ?st1) ''@/assets/logo.png'' = Some (''/project/frontend/assets/logo.png'', None)"
    by (rule ex_resolve_logo) (use assms in simp)
  have h: "\<not> map_has (replacers ?st1) ''@/assets/logo.png''"
    using assms by (simp add: map_has_def)
  have pm: "processMatches (processFile (Suc n) ex_env ex_cfg) ex_cfg (matchAll ex_cfg ex_css) ?st1
     = Done (logo_done ?st1)"
    using logo r h by (simp add: processMatches_def ex_scan Let_def del: processFile.simps)
  have t: "replacers (logo_done ?st1) = [(''@/assets/logo.png'', ''/assets/logo.10000003.png'')]"
    using assms by simp
  show ?thesis
    using assms(2) pm t
    by (simp add: processCss_def readFile_def ex_subst_css del: processFile.simps)
qed

lemma ex_processFile_css:
  assumes "replacers st = []" and "disk_of st ''/project/frontend/style.css'' = Some (File ex_css)"
    and "disk_of st ''/project/frontend/assets/logo.png'' = Some (File ''PNG'')"
  shows "processFile (Suc (Suc n)) ex_env ex_cfg ''@/style.css'' (''/project/frontend/style.css'', None) st
     = Done (css_done st)"
proof -
  have "processFile (Suc (Suc n)) ex_env ex_cfg ''@/style.css'' (''/project/frontend/style.css'', None) st
      = processFile_body (Suc n) (processFile (Suc n) ex_env ex_cfg) ex_env ex_cfg
          ''@/style.css'' (''/project/frontend/style.css'', None) st"
    by simp
  also have "\<dots> = Done (css_done st)"
    using assms(1) ex_processCss [OF assms, of n]
    by (simp add: processFile_body_def map_has_def Let_def ex_names store_artifact_def truthy_data_def
          content_of_def ex_hash generateRoute_def ex_paths css_done_def ex_css_out_not_empty
          del: processFile.simps)
  finally show ?thesis .
qed

lemma fields_css_done [simp]:
  "replacers (css_done st) =
     AList.update ''@/style.css'' ''/assets/style.1000001a.css''
       (AList.update ''@/assets/logo.png'' ''/assets/logo.10000003.png'' (replacers st))"
  "rawScripts (css_done st) = rawScripts st" "rawHTMLs (css_done st) = rawHTMLs st"
  "disk_of (css_done st) =
     (disk_of st)(''/project/.bundle/assets/logo.10000003.png'' \<mapsto> File ''PNG'',
                  ''/project/.bundle/assets/style.1000001a.css'' \<mapsto> File ex_css_out)"
  by (simp_all add: css_done_def)

lemma ex_template_match:
  assumes "replacers st = []" and "disk_of st ''/project/frontend/style.css'' = Some (File ex_css)"
    and "disk_of st ''/project/frontend/assets/logo.png'' = Some (File ''PNG'')"
  shows "template_match (Suc (Suc n)) ex_env ex_cfg ([CHR 0x22] @ ''@/style.css'' @ [CHR 0x22], ''@/style.css'') st
     = Done (css_done st)"
  using assms(2) ex_processFile_css [OF assms, of n]
  by (simp add: template_match_def Let_def ex_resolve_css ex_names del: processFile.simps)

text \<open>The second reference of the markup finds its token in the table: nothing is done.\<close>

lemma ex_template_match_again:
  assumes "replacers st = []" and "disk_of st ''/project/frontend/assets/logo.png'' = Some (File ''PNG'')"
  shows "template_match (Suc (Suc n)) ex_env ex_cfg
           ([CHR 0x22] @ ''@/assets/logo.png'' @ [CHR 0x22], ''@/assets/logo.png'') (css_done st)
     = Done (css_done st)"
proof -
  have r: "resolveAlias ex_cfg (disk_of (css_done st)) ''@/assets/logo.png''
     = Some (''/project/frontend/assets/logo.png'', None)"
    by (rule ex_resolve_logo) (use assms in simp)
  have h: "map_has (replacers (css_done st)) ''@/assets/logo.png''"
    using assms by (simp add: map_has_def)
  show ?thesis
    using r h by (simp add: template_match_def Let_def ex_names processFile_body_def)
qed

lemma ex_bundle_template:
  assumes "replacers st = []" and "disk_of st ''/project/frontend/style.css'' = Some (File ex_css)"
    and "disk_of st ''/project/frontend/assets/logo.png'' = Some (File ''PNG'')"
    and "disk_of st ''/project/frontend/templates/index.ts'' = Some (File ex_markup)"
  shows "bundle_template (Suc (Suc n)) ex_env ex_cfg ''templates/index.ts'' st
     = Done ((css_done (write_file ''/project/.bundle/temp/templates/index.0.ts'' ex_markup st))
              \<lparr> rawHTMLs := AList.update ''templates/index.ts'' ex_markup (rawHTMLs st) \<rparr>)"
proof -
  let ?st1 = "write_file ''/project/.bundle/temp/templates/index.0.ts'' ex_markup st"
  have m1: "template_match (Suc (Suc n)) ex_env ex_cfg ([CHR 0x22] @ ''@/style.css'' @ [CHR 0x22], ''@/style.css'') ?st1
     = Done (css_done ?st1)"
    by (rule ex_template_match) (use assms in simp_all)
  have m2: "template_match (Suc (Suc n)) ex_env ex_cfg
       ([CHR 0x22] @ ''@/assets/logo.png'' @ [CHR 0x22], ''@/assets/logo.png'') (css_done ?st1)
     = Done (css_done ?st1)"
    by (rule ex_template_match_again) (use assms in simp_all)
  have f: "for_each (template_match (Suc (Suc n)) ex_env ex_cfg) (matchAll ex_cfg ex_markup) ?st1
     = Done (css_done ?st1)"
    using m1 m2 by (simp add: ex_scan)
  show ?thesis
    using assms(4) f
    by (simp add: bundle_template_def Let_def ex_paths ex_names readFile_def)
qed

lemma ex_subst:
  "substitute [(''@/assets/logo.png'', ''/assets/logo.10000003.png''),
               (''@/style.css'', ''/assets/style.1000001a.css'')] ex_markup = ex_html_out"
  by code_simp

lemma ex_st0_facts:
  "replacers ex_st0 = []" "rawScripts ex_st0 = []" "rawHTMLs ex_st0 = []"
  "disk_of ex_st0 ''/project/frontend/style.css'' = Some (File ex_css)"
  "disk_of ex_st0 ''/project/frontend/assets/logo.png'' = Some (File ''PNG'')"
  "disk_of ex_st0 ''/project/frontend/templates/index.ts'' = Some (File ex_markup)"
  by (simp_all add: ex_st0_def ex_disk_def inside_def dir_path_def startsWith_def)

lemma ex_bundle_process: "bundle_process (Suc (Suc n)) ex_env ex_cfg ex_disk = Done ex_st2"
proof -
  have t: "bundle_template (Suc (Suc n)) ex_env ex_cfg ''templates/index.ts'' ex_st0 = Done ex_st1"
    using ex_bundle_template [of ex_st0 n] by (simp add: ex_st0_facts ex_st1_def)
  have s: "rawScripts ex_st1 = []"
    by (simp add: ex_st1_def ex_st0_facts)
  show ?thesis
    using t s by (simp add: bundle_process_def Let_def ex_paths ex_st0_def [symmetric] ex_st2_def
        del: processFile.simps)
qed

lemma ex_st2_facts:
  "replacers ex_st2 = [(''@/assets/logo.png'', ''/assets/logo.10000003.png''),
                       (''@/style.css'', ''/assets/style.1000001a.css'')]"
  "rawHTMLs ex_st2 = [(''templates/index.ts'', ex_markup)]"
  by (simp_all add: ex_st2_def ex_st1_def ex_st0_facts)

lemma ex_run_bundle: "run_bundle (Suc (Suc n)) ex_env ex_cfg ex_disk = Done ex_final"
  by (simp add: run_bundle_def ex_bundle_process bundle_write_def write_markup_def Let_def
        ex_st2_facts ex_subst ex_names ex_paths ex_final_def del: processFile.simps)

text \<open>With fuel for one level only, the image of the stylesheet is out of reach.\<close>

lemma ex_run_bundle_short: "run_bundle (Suc 0) ex_env ex_cfg ex_disk = Diverged"
proof -
  let ?st = "write_file ''/project/.bundle/temp/templates/index.0.ts'' ex_markup ex_st0"
  let ?st1 = "log_event (Compiled ''/project/frontend/style.css'') ?st"
  have r: "resolveAlias ex_cfg (disk_of ?st1) ''@/assets/logo.png'' = Some (''/project/frontend/assets/logo.png'', None)"
    by (rule ex_resolve_logo) (simp add: ex_st0_facts)
  have pm: "processMatches (processFile 0 ex_env ex_cfg) ex_cfg (matchAll ex_cfg ex_css) ?st1 = Diverged"
    using r by (simp add: processMatches_def ex_scan Let_def map_has_def ex_st0_facts)
  have c: "processCss (processFile 0 ex_env ex_cfg) ex_env ex_cfg ''/project/frontend/style.css'' ?st = Diverged"
    using pm by (simp add: processCss_def readFile_def ex_st0_facts)
  have p: "processFile (Suc 0) ex_env ex_cfg ''@/style.css'' (''/project/frontend/style.css'', None) ?st = Diverged"
    using c by (simp add: processFile_body_def map_has_def ex_st0_facts Let_def ex_names del: processFile.simps(1))
  have m: "template_match (Suc 0) ex_env ex_cfg ([CHR 0x22] @ ''@/style.css'' @ [CHR 0x22], ''@/style.css'') ?st = Diverged"
    using p by (simp add: template_match_def Let_def ex_resolve_css ex_st0_facts ex_names del: processFile.simps)
  have t: "bundle_template (Suc 0) ex_env ex_cfg ''templates/index.ts'' ex_st0 = Diverged"
    using m by (simp add: bundle_template_def Let_def ex_paths ex_names readFile_def ex_scan ex_st0_facts
        del: processFile.simps)
  show ?thesis
    using t by (simp add: run_bundle_def bundle_process_def Let_def ex_paths ex_st0_def [symmetric]
        del: processFile.simps)
qed

lemma ex_final_events:
  "events ex_final =
     [RmTree ''/project/.bundle'',
      Write ''/project/.bundle/temp/templates/index.0.ts'',
      Compiled ''/project/frontend/style.css'',
      Hashed ''/project/frontend/assets/logo.png'',
      TableSet ''@/assets/logo.png'',
      Write ''/project/.bundle/assets/logo.10000003.png'',
      Substituted (Stylesheet ''/project/frontend/style.css''),
      Hashed ''/project/frontend/style.css'',
      TableSet ''@/style.css'',
      Write ''/project/.bundle/assets/style.1000001a.css'',
      RmTree ''/project/.bundle/temp'',
      Substituted (Markup ''templates/index.ts''),
      Write ''/project/.bundle/templates/index.html'']"
  by (simp add: ex_final_def ex_st2_def ex_st1_def css_done_def logo_done_def ex_st0_def)

lemma ex_final_disk:
  "disk_of ex_final ''/project/.bundle/assets/old.js'' = None"
  "disk_of ex_final ''/project/.bundle/assets/style.1000001a.css'' = Some (File ex_css_out)"
  "disk_of ex_final ''/project/.bundle/assets/logo.10000003.png'' = Some (File ''PNG'')"
  "disk_of ex_final ''/project/.bundle/templates/index.html'' = Some (File ex_html_out)"
  "disk_of ex_final ''/project/.bundle/temp/templates/index.0.ts'' = None"
  by (simp_all add: ex_final_def ex_st2_def ex_st1_def ex_st0_def ex_disk_def inside_def dir_path_def startsWith_def)


section \<open>Resource processor and build driver: properties\<close>







lemma no_markup_stable: "process_stable (\<lambda>st. list_all (\<lambda>e. \<not> is_markup_pass e) (events st))"
  by (simp add: process_stable_def is_markup_pass_def)

lemma no_set_after_append:
  "no_set_after pass (es @ [e]) = (no_set_after pass es \<and> (is_table_set e \<longrightarrow> list_all (\<lambda>x. \<not> pass x) es))"
  by (induction es) auto

lemma no_set_after_write_stable: "write_stable (\<lambda>st. no_set_after is_markup_pass (events st))"
  by (simp add: write_stable_def no_set_after_append is_table_set_def is_markup_pass_def
        split: event.splits blob.splits)

lemma no_pass_no_set_after: "list_all (\<lambda>e. \<not> pass e) es \<Longrightarrow> no_set_after pass es"
  by (induction es) auto

lemma table_write_stable: "write_stable (\<lambda>st. replacers st = T)"
  by (simp add: write_stable_def)














lemma fields_empty_seen [simp]:
  "replacers (empty_seen st) = replacers st" "disk_of (empty_seen st) = disk_of st"
  "rawScripts (empty_seen st) = rawScripts st" "rawHTMLs (empty_seen st) = rawHTMLs st"
  by (simp_all add: empty_seen_def)



lemma for_each_returns:
  assumes "\<And>x s. f x s \<noteq> Diverged"
  shows "for_each f xs st \<noteq> Diverged"
proof (induction xs arbitrary: st)
  case Nil
  show ?case by simp
next
  case (Cons x xs)
  show ?case
    using assms [of x st] Cons by (cases "f x st") simp_all
qed

lemma write_markup_returns: "write_markup ev cfg inlines entry st \<noteq> Diverged"
  by (simp add: write_markup_def Let_def split: sum.splits)

lemma bundle_write_returns: "bundle_write ev cfg st \<noteq> Diverged"
  using for_each_returns [of "write_markup ev cfg inlines" "rawHTMLs st" st for inlines, OF write_markup_returns]
  by (simp add: bundle_write_def split: sum.splits)

text \<open>
  C3, as the code has it. In the log of a build, finished or thrown, no table entry is set
  after a substitution pass over rendered markup, and the table at the end of the build is
  the table that the processing phase (the deferred script batch included) left: every
  pass over markup runs against the fully populated table. The passes over stylesheet and
  script text are part of the processing phase.
\<close>
theorem markup_passes_after_table:
  "no_set_after is_markup_pass (outcome_events (run_bundle n ev cfg d))
   \<and> (\<forall>st1. bundle_process n ev cfg d = Done st1 \<longrightarrow>
         outcome_table (run_bundle n ev cfg d) = replacers st1)"
proof -
  have "ends_in (\<lambda>st. no_set_after is_markup_pass (events st)) (\<lambda>s. s) (run_bundle n ev cfg d)"
    by (rule run_bundle_keeps [OF no_markup_stable no_set_after_write_stable])
       (simp_all add: no_pass_no_set_after is_markup_pass_def)
  then have a: "no_set_after is_markup_pass (outcome_events (run_bundle n ev cfg d))"
    by (cases "run_bundle n ev cfg d") (simp_all add: outcome_events_def)
  have b: "outcome_table (run_bundle n ev cfg d) = replacers st1"
    if p: "bundle_process n ev cfg d = Done st1" for st1
  proof -
    have "ends_in (\<lambda>st. replacers st = replacers st1) (\<lambda>s. s) (bundle_write ev cfg st1)"
      by (rule bundle_write_keeps [OF table_write_stable]) simp
    then show ?thesis
      using p bundle_write_returns [of ev cfg st1]
      by (cases "bundle_write ev cfg st1") (simp_all add: run_bundle_def outcome_table_def)
  qed
  from a b show ?thesis by blast
qed

theorem markup_passes_after_table_witness:
  "bundle_process (Suc (Suc 0)) ex_env ex_cfg ex_disk = Done ex_st2
   \<and> outcome_table (run_bundle (Suc (Suc 0)) ex_env ex_cfg ex_disk) =
       [(''@/assets/logo.png'', ''/assets/logo.10000003.png''), (''@/style.css'', ''/assets/style.1000001a.css'')]
   \<and> no_set_after is_markup_pass (events ex_final)"
  using markup_passes_after_table [of "Suc (Suc 0)" ex_env ex_cfg ex_disk]
  by (simp add: ex_bundle_process ex_run_bundle outcome_events_def ex_st2_facts del: processFile.simps)

text \<open>
  The claim C3 as it is written fails in the example build: the pass over the text of the
  stylesheet runs when the table holds the entry of the image only, and the entry of the
  stylesheet is set after it.
\<close>

theorem stylesheet_pass_before_table_set:
  "outcome_events (run_bundle (Suc (Suc 0)) ex_env ex_cfg ex_disk) =
     [RmTree ''/project/.bundle'',
      Write ''/project/.bundle/temp/templates/index.0.ts'',
      Compiled ''/project/frontend/style.css'',
      Hashed ''/project/frontend/assets/logo.png'',
      TableSet ''@/assets/logo.png'',
      Write ''/project/.bundle/assets/logo.10000003.png'',
      Substituted (Stylesheet ''/project/frontend/style.css''),
      Hashed ''/project/frontend/style.css'',
      TableSet ''@/style.css'',
      Write ''/project/.bundle/assets/style.1000001a.css'',
      RmTree ''/project/.bundle/temp'',
      Substituted (Markup ''templates/index.ts''),
      Write ''/project/.bundle/templates/index.html'']
   \<and> \<not> no_set_after is_pass (outcome_events (run_bundle (Suc (Suc 0)) ex_env ex_cfg ex_disk))"
  by (simp add: ex_run_bundle outcome_events_def ex_final_events is_pass_def is_table_set_def
        del: processFile.simps)

text \<open>
  C9, as the code has it. For an image path (\<open>.png\<close>, \<open>.jpg\<close>, \<open>.jpeg\<close>, in any case) whose
  token is not yet a key and whose file can be read, \<open>processFile\<close> passes the bytes on
  unchanged when \<open>Number\<close> of the \<open>w\<close> parameter is \<open>NaN\<close> or zero, and gives them to the
  resizer otherwise (a failure of the resizer is thrown). In both cases the resulting bytes
  are hashed, the route is set in the table under the token, and the bytes are written at
  the output path of the route.
\<close>
theorem processFile_image:
  assumes ext: "toLowerCase (path_extname p) \<in> {''.png'', ''.jpg'', ''.jpeg''}"
    and fresh: "\<not> map_has (replacers st) tok"
    and content: "readFile (disk_of st) p = Inr buf"
  shows "processFile (Suc n) ev cfg tok (p, q) st =
     (if to_Number ev (searchParams_get ev q ''w'') = NaN \<or> to_Number ev (searchParams_get ev q ''w'') = Num 0
      then Done (store_artifact ev cfg tok p (Bytes buf) st)
      else (case sharp_resize ev buf (to_Number ev (searchParams_get ev q ''w'')) of
              Inl e \<Rightarrow> Threw e st
            | Inr resized \<Rightarrow> Done (store_artifact ev cfg tok p (Bytes resized) (log_event (Resized p) st))))
   \<and> map_of (replacers (store_artifact ev cfg tok p (Bytes b) s)) tok
       = Some (route (generateRoute cfg p (generateHash (bun_hash ev) b)))
   \<and> disk_of (store_artifact ev cfg tok p (Bytes b) s) (outPath (generateRoute cfg p (generateHash (bun_hash ev) b)))
       = Some (File b)"
proof -
  have e: "toLowerCase (path_extname p) \<noteq> ''.js''" "toLowerCase (path_extname p) \<noteq> ''.ts''"
    using ext by auto
  have i: "toLowerCase (path_extname p) = ''.png'' \<or> toLowerCase (path_extname p) = ''.jpg''
      \<or> toLowerCase (path_extname p) = ''.jpeg''"
    using ext by auto
  have t: "(truthy_number w \<and> \<not> isNaN w) = (\<not> (w = NaN \<or> w = Num 0))" for w
    by (cases w) (simp_all add: truthy_number_def isNaN_def)
  have run: "processFile (Suc n) ev cfg tok (p, q) st =
     (if to_Number ev (searchParams_get ev q ''w'') = NaN \<or> to_Number ev (searchParams_get ev q ''w'') = Num 0
      then Done (store_artifact ev cfg tok p (Bytes buf) st)
      else (case sharp_resize ev buf (to_Number ev (searchParams_get ev q ''w'')) of
              Inl e \<Rightarrow> Threw e st
            | Inr resized \<Rightarrow> Done (store_artifact ev cfg tok p (Bytes resized) (log_event (Resized p) st))))"
    using fresh content e i
    by (simp add: processFile_body_def Let_def processImage_def t split: sum.splits)
  have tbl: "map_of (replacers (store_artifact ev cfg tok p (Bytes b) s)) tok
       = Some (route (generateRoute cfg p (generateHash (bun_hash ev) b)))"
    by (simp add: store_artifact_def truthy_data_def content_of_def Let_def AList.update_conv')
  have dsk: "disk_of (store_artifact ev cfg tok p (Bytes b) s) (outPath (generateRoute cfg p (generateHash (bun_hash ev) b)))
       = Some (File b)"
    by (simp add: store_artifact_def truthy_data_def content_of_def Let_def)
  from run tbl dsk show ?thesis by blast
qed

lemma ex_logo_facts:
  "toLowerCase (path_extname ''/project/frontend/assets/logo.png'') = ''.png''"
  "to_Number ex_env (searchParams_get ex_env (Some ''w=100'') ''w'') = Num 100"
  "to_Number ex_env (searchParams_get ex_env (Some ''w=0'') ''w'') = Num 0"
  by code_simp+

theorem processFile_image_witness:
  "processFile (Suc 0) ex_env ex_cfg ''@/assets/logo.png?w=100''
      (''/project/frontend/assets/logo.png'', Some ''w=100'') (initial_build ex_disk)
     = Done (store_artifact ex_env ex_cfg ''@/assets/logo.png?w=100'' ''/project/frontend/assets/logo.png''
               (Bytes ''resized:PNG'')
               (log_event (Resized ''/project/frontend/assets/logo.png'') (initial_build ex_disk)))"
proof -
  have ext: "toLowerCase (path_extname ''/project/frontend/assets/logo.png'') \<in> {''.png'', ''.jpg'', ''.jpeg''}"
    by (simp add: ex_logo_facts)
  have fresh: "\<not> map_has (replacers (initial_build ex_disk)) ''@/assets/logo.png?w=100''"
    by (simp add: map_has_def)
  have content: "readFile (disk_of (initial_build ex_disk)) ''/project/frontend/assets/logo.png'' = Inr ''PNG''"
    by (simp add: readFile_def ex_disk_def)
  have r: "sharp_resize ex_env ''PNG'' (Num 100) = Inr ''resized:PNG''"
    by (simp add: ex_env_def)
  from processFile_image [OF ext fresh content, of 0 ex_env ex_cfg "Some ''w=100''"] r
  show ?thesis by (simp add: ex_logo_facts)
qed

text \<open>
  The claim C9 as it is written fails for the width zero: the parameter is present and
  numeric, and the bytes are returned as they were read, with no call of the resizer.
\<close>

theorem processImage_zero_width_not_resized:
  "processImage ex_env ''/project/frontend/assets/logo.png'' (Some ''w=0'') (initial_build ex_disk)
     = Done (''PNG'', initial_build ex_disk)
   \<and> sharp_resize ex_env ''PNG'' (Num 0) = Inr ''resized:PNG''"
proof -
  have "processImage ex_env ''/project/frontend/assets/logo.png'' (Some ''w=0'') (initial_build ex_disk)
     = Done (''PNG'', initial_build ex_disk)"
    by (simp add: processImage_def Let_def ex_logo_facts readFile_def ex_disk_def truthy_number_def)
  moreover have "sharp_resize ex_env ''PNG'' (Num 0) = Inr ''resized:PNG''"
    by (simp add: ex_env_def)
  ultimately show ?thesis by simp
qed

lemma output_tree_stable:
  "process_stable (\<lambda>st. (\<exists>es. events st = RmTree out # es) \<and>
      (\<forall>p. p = dir_path out \<or> inside out p \<longrightarrow> disk_of st p \<noteq> None \<longrightarrow> Write p \<in> set (events st)))"
  by (auto simp: process_stable_def)

lemma output_tree_write_stable:
  "write_stable (\<lambda>st. (\<exists>es. events st = RmTree out # es) \<and>
      (\<forall>p. p = dir_path out \<or> inside out p \<longrightarrow> disk_of st p \<noteq> None \<longrightarrow> Write p \<in> set (events st)))"
  by (auto simp: write_stable_def)

text \<open>
  C10. A build that ends, by returning or by throwing, has removed the output directory
  before anything else: its log starts with the removal of \<open>cwd/bundleDir\<close>, so every
  artifact is written after it, and whatever exists at the end at the path of the output
  directory or inside it was written by this build. A file of an earlier build that this
  build does not write again is gone. The output directory can be named with a separator
  at its end.
\<close>

theorem bundle_output_only_own_writes:
  assumes "run_bundle n ev cfg d = Done st \<or> run_bundle n ev cfg d = Threw e st"
  shows "(\<exists>es. events st = RmTree (path_join [cwd cfg, bundleDir cfg]) # es)
    \<and> (\<forall>p. (p = dir_path (path_join [cwd cfg, bundleDir cfg]) \<or> inside (path_join [cwd cfg, bundleDir cfg]) p)
            \<and> disk_of st p \<noteq> None \<longrightarrow> Write p \<in> set (events st))"
proof -
  let ?top = "path_join [cwd cfg, bundleDir cfg]"
  let ?P = "\<lambda>st. (\<exists>es. events st = RmTree ?top # es) \<and>
      (\<forall>p. p = dir_path ?top \<or> inside ?top p \<longrightarrow> disk_of st p \<noteq> None \<longrightarrow> Write p \<in> set (events st))"
  have "ends_in ?P (\<lambda>s. s) (run_bundle n ev cfg d)"
    by (rule run_bundle_keeps [OF output_tree_stable output_tree_write_stable]) auto
  with assms have "?P st" by auto
  then show ?thesis by blast
qed

lemma ex_sep_run_bundle:
  "run_bundle n ex_bare_env ex_sep_cfg ex_disk = Done ex_sep_final"
proof -
  have p: "path_join [''/project'', ''.bundle/''] = ''/project/.bundle/''"
    "path_join [''/project'', ''.bundle/'', ''temp''] = ''/project/.bundle/temp''"
    by code_simp+
  show ?thesis
    by (simp add: run_bundle_def bundle_process_def bundle_write_def Let_def ex_sep_cfg_def ex_bare_env_def
          ex_cfg_def ex_env_def isAutoReload_def p ex_sep_final_def)
qed

theorem bundle_output_only_own_writes_witness:
  "run_bundle (Suc (Suc 0)) ex_env ex_cfg ex_disk = Done ex_final
   \<and> ex_disk ''/project/.bundle/assets/old.js'' = Some (File ''stale'')
   \<and> disk_of ex_final ''/project/.bundle/assets/old.js'' = None
   \<and> hd (events ex_final) = RmTree ''/project/.bundle''
   \<and> run_bundle 0 ex_bare_env ex_sep_cfg ex_disk = Done ex_sep_final
   \<and> events ex_sep_final = [RmTree ''/project/.bundle/'', RmTree ''/project/.bundle/temp'']
   \<and> disk_of ex_sep_final ''/project/.bundle/assets/old.js'' = None"
proof -
  have i: "inside (path_join [cwd ex_cfg, bundleDir ex_cfg]) ''/project/.bundle/assets/old.js''"
    by (simp add: ex_paths inside_def dir_path_def startsWith_def)
  have w: "Write ''/project/.bundle/assets/old.js'' \<notin> set (events ex_final)"
    by (simp add: ex_final_events)
  from bundle_output_only_own_writes [of "Suc (Suc 0)" ex_env ex_cfg ex_disk ex_final] ex_run_bundle [of 0] i w
  have a: "disk_of ex_final ''/project/.bundle/assets/old.js'' = None \<and> hd (events ex_final) = RmTree ''/project/.bundle''"
    by (auto simp: ex_paths)
  have b: "ex_disk ''/project/.bundle/assets/old.js'' = Some (File ''stale'')"
    by (simp add: ex_disk_def)
  have j: "inside (path_join [cwd ex_sep_cfg, bundleDir ex_sep_cfg]) ''/project/.bundle/assets/old.js''"
  proof -
    have "path_join [''/project'', ''.bundle/''] = ''/project/.bundle/''" by code_simp
    then show ?thesis
      by (simp add: ex_sep_cfg_def ex_cfg_def inside_def dir_path_def startsWith_def)
  qed
  have v: "events ex_sep_final = [RmTree ''/project/.bundle/'', RmTree ''/project/.bundle/temp'']"
    by (simp add: ex_sep_final_def)
  from bundle_output_only_own_writes [of 0 ex_bare_env ex_sep_cfg ex_disk ex_sep_final] ex_sep_run_bundle [of 0] j v
  have c: "disk_of ex_sep_final ''/project/.bundle/assets/old.js'' = None"
    by auto
  from a b c v ex_run_bundle [of 0] ex_sep_run_bundle [of 0] show ?thesis by simp
qed


section \<open>Substitution pass: one image at two widths\<close>

lemma ex_two_scan:
  "matchAll ex_cfg ex_two_markup =
     [([CHR 0x22] @ ''@/assets/logo.png'' @ [CHR 0x22], ''@/assets/logo.png''),
      ([CHR 0x22] @ ''@/assets/logo.png?w=100'' @ [CHR 0x22], ''@/assets/logo.png?w=100'')]"
  by code_simp

lemma ex_resolve_wide:
  "d ''/project/frontend/assets/logo.png'' \<noteq> None \<Longrightarrow>
   resolveAlias ex_cfg d ''@/assets/logo.png?w=100'' = Some (''/project/frontend/assets/logo.png'', Some ''w=100'')"
  by (simp add: resolveAlias_def alias_find_def alias_replacement_def startsWith_def ex_paths existsSync_def)

lemma ex_wide_facts:
  "to_Number ex_env (searchParams_get ex_env (Some ''w=100'') ''w'') = Num 100"
  "sharp_resize ex_env ''PNG'' (Num 100) = Inr ''resized:PNG''"
  "generateHash (bun_hash ex_env) ''resized:PNG'' = ''1000000b''"
  "path_join [''/project'', ''.bundle'', ''assets'', ''logo.1000000b.png''] = ''/project/.bundle/assets/logo.1000000b.png''"
proof -
  show "to_Number ex_env (searchParams_get ex_env (Some ''w=100'') ''w'') = Num 100"
    by (simp add: ex_env_def plain_params_def plain_number_def is_digit_def digit_value_def)
  show "sharp_resize ex_env ''PNG'' (Num 100) = Inr ''resized:PNG''"
    by (simp add: ex_env_def)
  show "generateHash (bun_hash ex_env) ''resized:PNG'' = ''1000000b''"
    by (simp add: generateHash_def ex_env_def toString36.simps digit36_def)
  show "path_join [''/project'', ''.bundle'', ''assets'', ''logo.1000000b.png''] = ''/project/.bundle/assets/logo.1000000b.png''"
    by code_simp
qed

lemma ex_processFile_wide:
  assumes "\<not> map_has (replacers st) ''@/assets/logo.png?w=100''"
    and "disk_of st ''/project/frontend/assets/logo.png'' = Some (File ''PNG'')"
  shows "processFile (Suc n) ex_env ex_cfg ''@/assets/logo.png?w=100''
           (''/project/frontend/assets/logo.png'', Some ''w=100'') st
     = Done (wide_done st)"
  using assms
  by (simp add: processFile_body_def Let_def ex_names processImage_def readFile_def ex_wide_facts
        truthy_number_def isNaN_def store_artifact_def truthy_data_def content_of_def
        generateRoute_def wide_done_def)

lemma fields_wide_done [simp]:
  "replacers (wide_done st) = AList.update ''@/assets/logo.png?w=100'' ''/assets/logo.1000000b.png'' (replacers st)"
  "rawScripts (wide_done st) = rawScripts st" "rawHTMLs (wide_done st) = rawHTMLs st"
  "disk_of (wide_done st) = (disk_of st)(''/project/.bundle/assets/logo.1000000b.png'' \<mapsto> File ''resized:PNG'')"
  by (simp_all add: wide_done_def)

lemma ex_two_template:
  assumes "replacers st = []" and "rawHTMLs st = []"
    and "disk_of st ''/project/frontend/assets/logo.png'' = Some (File ''PNG'')"
    and "disk_of st ''/project/frontend/templates/index.ts'' = Some (File ex_two_markup)"
  shows "bundle_template (Suc n) ex_env ex_cfg ''templates/index.ts'' st
     = Done ((wide_done (logo_done (write_file ''/project/.bundle/temp/templates/index.0.ts'' ex_two_markup st)))
              \<lparr> rawHTMLs := [(''templates/index.ts'', ex_two_markup)] \<rparr>)"
proof -
  let ?st1 = "write_file ''/project/.bundle/temp/templates/index.0.ts'' ex_two_markup st"
  have r1: "resolveAlias ex_cfg (disk_of ?st1) ''@/assets/logo.png'' = Some (''/project/frontend/assets/logo.png'', None)"
    by (rule ex_resolve_logo) (use assms in simp)
  have p1: "processFile (Suc n) ex_env ex_cfg ''@/assets/logo.png'' (''/project/frontend/assets/logo.png'', None) ?st1
     = Done (logo_done ?st1)"
    by (rule ex_processFile_logo) (use assms in \<open>simp_all add: map_has_def\<close>)
  have m1: "template_match (Suc n) ex_env ex_cfg ([CHR 0x22] @ ''@/assets/logo.png'' @ [CHR 0x22], ''@/assets/logo.png'') ?st1
     = Done (logo_done ?st1)"
    using r1 p1 by (simp add: template_match_def Let_def ex_names del: processFile.simps)
  have r2: "resolveAlias ex_cfg (disk_of (logo_done ?st1)) ''@/assets/logo.png?w=100''
     = Some (''/project/frontend/assets/logo.png'', Some ''w=100'')"
    by (rule ex_resolve_wide) (use assms in simp)
  have p2: "processFile (Suc n) ex_env ex_cfg ''@/assets/logo.png?w=100''
       (''/project/frontend/assets/logo.png'', Some ''w=100'') (logo_done ?st1)
     = Done (wide_done (logo_done ?st1))"
    by (rule ex_processFile_wide) (use assms in \<open>simp_all add: map_has_def\<close>)
  have m2: "template_match (Suc n) ex_env ex_cfg
       ([CHR 0x22] @ ''@/assets/logo.png?w=100'' @ [CHR 0x22], ''@/assets/logo.png?w=100'') (logo_done ?st1)
     = Done (wide_done (logo_done ?st1))"
    using r2 p2 by (simp add: template_match_def Let_def ex_names del: processFile.simps)
  have f: "for_each (template_match (Suc n) ex_env ex_cfg) (matchAll ex_cfg ex_two_markup) ?st1
     = Done (wide_done (logo_done ?st1))"
    using m1 m2 by (simp add: ex_two_scan)
  show ?thesis
    using assms(2,4) f
    by (simp add: bundle_template_def Let_def ex_paths ex_names readFile_def)
qed

lemma ex_two_subst:
  "substitute [(''@/assets/logo.png'', ''/assets/logo.10000003.png''),
               (''@/assets/logo.png?w=100'', ''/assets/logo.1000000b.png'')] ex_two_markup = ex_two_out"
  "substitute [(''@/assets/logo.png?w=100'', ''/assets/logo.1000000b.png''),
               (''@/assets/logo.png'', ''/assets/logo.10000003.png'')] ex_two_markup =
     ''<img src='' @ [CHR 0x22] @ ''/assets/logo.10000003.png'' @ [CHR 0x22] @ ''><img src=''
       @ [CHR 0x22] @ ''/assets/logo.1000000b.png'' @ [CHR 0x22] @ ''>''"
  by code_simp+

lemma ex_two_run: "run_bundle (Suc n) ex_env ex_cfg ex_two_disk = Done ex_two_final"
proof -
  let ?st0 = "rm_tree ''/project/.bundle'' (initial_build ex_two_disk)"
  let ?st1 = "(wide_done (logo_done (write_file ''/project/.bundle/temp/templates/index.0.ts'' ex_two_markup ?st0)))
              \<lparr> rawHTMLs := [(''templates/index.ts'', ex_two_markup)] \<rparr>"
  have t: "bundle_template (Suc n) ex_env ex_cfg ''templates/index.ts'' ?st0 = Done ?st1"
    by (rule ex_two_template) (simp_all add: ex_two_disk_def inside_def dir_path_def startsWith_def)
  have p: "bundle_process (Suc n) ex_env ex_cfg ex_two_disk = Done (rm_tree ''/project/.bundle/temp'' ?st1)"
    using t by (simp add: bundle_process_def Let_def ex_paths del: processFile.simps)
  show ?thesis
    by (simp add: run_bundle_def p bundle_write_def write_markup_def Let_def ex_two_subst ex_names ex_paths
          ex_two_final_def del: processFile.simps)
qed

text \<open>
  C4 fails on the code. A template shows the image \<open>@/assets/logo.png\<close> at its own size and
  then at the width 100. The build gives each of the two tokens its own table entry and
  writes both artifacts, the resized one at \<open>/assets/logo.1000000b.png\<close>. The substitution
  pass takes the entries in the order of insertion: the shorter key is replaced first, also
  where it starts the longer key, so the second reference comes out as the route of the
  full-size image followed by \<open>?w=100\<close>, and the route of the resized image is nowhere in
  the markup that is written. The keys are distinct, and the same table in the other order
  gives each reference its own route: the result depends on the order.
\<close>

theorem substitute_shorter_key_first:
  "run_bundle (Suc n) ex_env ex_cfg ex_two_disk = Done ex_two_final
   \<and> replacers ex_two_final =
       [(''@/assets/logo.png'', ''/assets/logo.10000003.png''),
        (''@/assets/logo.png?w=100'', ''/assets/logo.1000000b.png'')]
   \<and> disk_of ex_two_final ''/project/.bundle/assets/logo.10000003.png'' = Some (File ''PNG'')
   \<and> disk_of ex_two_final ''/project/.bundle/assets/logo.1000000b.png'' = Some (File ''resized:PNG'')
   \<and> disk_of ex_two_final ''/project/.bundle/templates/index.html'' =
       Some (File (''<img src='' @ [CHR 0x22] @ ''/assets/logo.10000003.png'' @ [CHR 0x22] @ ''><img src=''
                    @ [CHR 0x22] @ ''/assets/logo.10000003.png?w=100'' @ [CHR 0x22] @ ''>''))
   \<and> substitute (replacers ex_two_final) ex_two_markup =
       ''<img src='' @ [CHR 0x22] @ ''/assets/logo.10000003.png'' @ [CHR 0x22] @ ''><img src=''
         @ [CHR 0x22] @ ''/assets/logo.10000003.png?w=100'' @ [CHR 0x22] @ ''>''
   \<and> substitute (rev (replacers ex_two_final)) ex_two_markup =
       ''<img src='' @ [CHR 0x22] @ ''/assets/logo.10000003.png'' @ [CHR 0x22] @ ''><img src=''
         @ [CHR 0x22] @ ''/assets/logo.1000000b.png'' @ [CHR 0x22] @ ''>''"
proof -
  have tbl: "replacers ex_two_final =
       [(''@/assets/logo.png'', ''/assets/logo.10000003.png''),
        (''@/assets/logo.png?w=100'', ''/assets/logo.1000000b.png'')]"
    by (simp add: ex_two_final_def)
  have files: "disk_of ex_two_final ''/project/.bundle/assets/logo.10000003.png'' = Some (File ''PNG'')"
    "disk_of ex_two_final ''/project/.bundle/assets/logo.1000000b.png'' = Some (File ''resized:PNG'')"
    "disk_of ex_two_final ''/project/.bundle/templates/index.html'' = Some (File ex_two_out)"
    by (simp_all add: ex_two_final_def inside_def dir_path_def startsWith_def)
  from ex_two_run [of n] tbl files ex_two_subst show ?thesis
    by (simp add: ex_two_out_def)
qed


section \<open>Dev loop controller: properties\<close>

lemma symmetricDifference_empty: "(symmetricDifference a b = []) = (set a = set b)"
  by (auto simp: symmetricDifference_def filter_empty_conv)

lemma fields_dev_event [simp]:
  "world (dev_event e st) = world st" "previousFrontend (dev_event e st) = previousFrontend st"
  "previousBackend (dev_event e st) = previousBackend st" "webServer (dev_event e st) = webServer st"
  "processes (dev_event e st) = processes st" "autoReloadRevision (dev_event e st) = autoReloadRevision st"
  "controllers (dev_event e st) = controllers st" "dev_log (dev_event e st) = dev_log st @ [e]"
  by (simp_all add: dev_event_def)

lemma alive_dev_event [simp]: "alive (dev_event e st) = alive st"
  by (simp add: alive_def)

lemma fields_kill [simp]:
  "previousFrontend (kill p t st) = previousFrontend st" "webServer (kill p t st) = webServer st"
  "controllers (kill p t st) = controllers st" "dev_log (kill p t st) = dev_log st @ [Killed p]"
  "map fst (processes (kill p t st)) = map fst (processes st)"
  "length (processes (kill p t st)) = length (processes st)"
  by (simp_all add: kill_def comp_def cong: map_cong)

lemma fields_sleep10 [simp]:
  "previousFrontend (sleep10 st) = previousFrontend st" "webServer (sleep10 st) = webServer st"
  "controllers (sleep10 st) = controllers st" "dev_log (sleep10 st) = dev_log st"
  "length (processes (sleep10 st)) = length (processes st)"
  by (simp_all add: sleep10_def)

lemma keys_sleep10 [simp]: "map fst (processes (sleep10 st)) = map fst (processes st)"
proof -
  have "fst (case snd q of Dying 0 \<Rightarrow> (fst q, Exited) | Dying (Suc k) \<Rightarrow> (fst q, Dying k) | _ \<Rightarrow> q) = fst q"
    for q :: "nat \<times> proc_status"
    by (simp split: proc_status.splits nat.splits)
  then show ?thesis by (simp add: sleep10_def comp_def)
qed

lemma fields_spawn [simp]:
  "previousFrontend (spawn st) = previousFrontend st" "webServer (spawn st) = Some (length (processes st))"
  "controllers (spawn st) = controllers st"
  "dev_log (spawn st) = dev_log st @ [Spawned (length (processes st)) (alive st)]"
  "processes (spawn st) = processes st @ [(length (processes st), Running)]"
  by (simp_all add: spawn_def Let_def)

lemma fields_abort [simp]:
  "previousFrontend (abort st) = previousFrontend st" "webServer (abort st) = webServer st"
  "processes (abort st) = processes st"
  "dev_log (abort st) = dev_log st @ [Aborted (length (controllers st) - 1)]"
  by (simp_all add: abort_def)

lemma alive_abort [simp]: "alive (abort st) = alive st"
  by (simp add: alive_def)

lemma built_count_simps [simp]:
  "built_count [] = 0"
  "built_count (e # es) = (case e of Built _ \<Rightarrow> 1 | _ \<Rightarrow> 0) + built_count es"
  "built_count (es @ fs) = built_count es + built_count fs"
  by (simp_all add: built_count_def split: dev_event.splits)

lemma wait_killed_frontend:
  "ends_in (\<lambda>s. previousFrontend s = previousFrontend st \<and> built_count (dev_log s) = built_count (dev_log st))
     (\<lambda>s. s) (wait_killed n p st)"
proof (induction n arbitrary: st)
  case 0
  show ?case by simp
next
  case (Suc n)
  show ?case
    using Suc [of "sleep10 (dev_event (Polled p False) st)"] by simp
qed

lemma notify_loop_frontend:
  "ends_in (\<lambda>s. previousFrontend s = previousFrontend st \<and> built_count (dev_log s) = built_count (dev_log st))
     (\<lambda>s. s) (notify_loop n t k st)"
proof (induction n arbitrary: st k)
  case 0
  show ?case by simp
next
  case (Suc n)
  show ?case
    using Suc [of "dev_event (Pinged k False) st" "Suc k"] by simp
qed

lemma backend_phase_frontend:
  "ends_in (\<lambda>s. previousFrontend s = previousFrontend st \<and> built_count (dev_log s) = built_count (dev_log st))
     (\<lambda>s. s) (backend_phase n ev cfg t c st)"
proof -
  let ?P = "\<lambda>s :: dev_state. previousFrontend s = previousFrontend st \<and> built_count (dev_log s) = built_count (dev_log st)"
  have tail: "ends_in ?P (\<lambda>s. s)
       (and_then (if backendLanguage cfg = Some ''rust''
                  then (if spawn_ok t then Done (spawn st2) else Threw (CollaboratorError ''spawn'') st2)
                  else Done st2)
          (\<lambda>st3. if isAutoReload cfg then notify n t st3 else Done st3))"
    if "?P st2" for st2 :: dev_state
  proof (rule ends_in_and_then [where proj = "\<lambda>s. s" and P = ?P])
    show "ends_in ?P (\<lambda>s. s) (if backendLanguage cfg = Some ''rust''
                  then (if spawn_ok t then Done (spawn st2) else Threw (CollaboratorError ''spawn'') st2)
                  else Done st2)"
      using that by simp
  next
    fix st3 :: dev_state assume a: "?P st3"
    have "ends_in (\<lambda>s. previousFrontend s = previousFrontend (st3\<lparr> controllers := controllers st3 @ [False] \<rparr>)
              \<and> built_count (dev_log s) = built_count (dev_log (st3\<lparr> controllers := controllers st3 @ [False] \<rparr>)))
            (\<lambda>s. s) (notify n t st3)"
      unfolding notify_def by (rule notify_loop_frontend)
    with a show "ends_in ?P (\<lambda>s. s) (if isAutoReload cfg then notify n t st3 else Done st3)"
      by simp
  qed
  have restart: "ends_in ?P (\<lambda>s. s)
       (and_then (case webServer st1 of None \<Rightarrow> Done (abort st1) | Some p \<Rightarrow> wait_killed n p (kill p t (abort st1)))
          (\<lambda>st2. and_then (if backendLanguage cfg = Some ''rust''
                  then (if spawn_ok t then Done (spawn st2) else Threw (CollaboratorError ''spawn'') st2)
                  else Done st2)
          (\<lambda>st3. if isAutoReload cfg then notify n t st3 else Done st3)))"
    if "?P st1" for st1 :: dev_state
  proof (rule ends_in_and_then [where proj = "\<lambda>s. s" and P = ?P])
    show "ends_in ?P (\<lambda>s. s)
       (case webServer st1 of None \<Rightarrow> Done (abort st1) | Some p \<Rightarrow> wait_killed n p (kill p t (abort st1)))"
    proof (cases "webServer st1")
      case None
      with that show ?thesis by simp
    next
      case (Some p)
      with that wait_killed_frontend [of "kill p t (abort st1)" n p] show ?thesis by simp
    qed
  next
    fix st2 :: dev_state assume "?P st2"
    then show "ends_in ?P (\<lambda>s. s)
       (and_then (if backendLanguage cfg = Some ''rust''
                  then (if spawn_ok t then Done (spawn st2) else Threw (CollaboratorError ''spawn'') st2)
                  else Done st2)
          (\<lambda>st3. if isAutoReload cfg then notify n t st3 else Done st3))"
      by (rule tail)
  qed
  show ?thesis
    using restart [of "st\<lparr> previousBackend := nb \<rparr>" for nb]
    by (simp add: backend_phase_def Let_def split: sum.splits)
qed

text \<open>
  C8. When the hashes of the frontend tree can be computed, the first part of an iteration
  of the dev loop rebuilds exactly when the new hash set differs from the previous one
  (their symmetric difference is not empty). With or without a rebuild, and whether the
  build returns or throws, the new hash set is the previous set afterwards; an iteration
  that completes leaves it so and has logged one rebuild on a change and none otherwise.
\<close>
theorem rebuild_gated_by_frontend_change:
  assumes "generateHashes ev (edit t (world st)) (frontendDir cfg) = Inr hashes"
  shows "frontend_phase n ev cfg t st =
           (if set hashes = set (previousFrontend st)
            then Done (False, st\<lparr> world := edit t (world st), previousFrontend := remdups hashes \<rparr>)
            else (case run_bundle n ev cfg (edit t (world st)) of
                    Diverged \<Rightarrow> Diverged
                  | Threw e b \<Rightarrow>
                      Done (True, dev_event (Built False)
                                    (st\<lparr> world := disk_of b, previousFrontend := remdups hashes \<rparr>))
                  | Done b \<Rightarrow>
                      Done (True, dev_event (Built True)
                                    (st\<lparr> world := disk_of b, previousFrontend := remdups hashes \<rparr>))))
    \<and> (\<forall>st'. dev_step n ev cfg t st = Done st' \<longrightarrow>
          previousFrontend st' = remdups hashes \<and>
          built_count (dev_log st') =
            built_count (dev_log st) + (if set hashes = set (previousFrontend st) then 0 else 1))"
proof -
  have phase: "frontend_phase n ev cfg t st =
           (if set hashes = set (previousFrontend st)
            then Done (False, st\<lparr> world := edit t (world st), previousFrontend := remdups hashes \<rparr>)
            else (case run_bundle n ev cfg (edit t (world st)) of
                    Diverged \<Rightarrow> Diverged
                  | Threw e b \<Rightarrow>
                      Done (True, dev_event (Built False)
                                    (st\<lparr> world := disk_of b, previousFrontend := remdups hashes \<rparr>))
                  | Done b \<Rightarrow>
                      Done (True, dev_event (Built True)
                                    (st\<lparr> world := disk_of b, previousFrontend := remdups hashes \<rparr>))))"
    using assms
    by (simp add: frontend_phase_def Let_def symmetricDifference_empty dev_event_def
          split: outcome.splits)
  have step: "previousFrontend st' = remdups hashes \<and>
          built_count (dev_log st') =
            built_count (dev_log st) + (if set hashes = set (previousFrontend st) then 0 else 1)"
    if d: "dev_step n ev cfg t st = Done st'" for st'
  proof -
    from d obtain c st1 where f: "frontend_phase n ev cfg t st = Done (c, st1)"
      and b: "backend_phase n ev cfg t c st1 = Done st'"
      by (cases "frontend_phase n ev cfg t st") (auto simp: dev_step_def)
    from f phase have "previousFrontend st1 = remdups hashes \<and>
          built_count (dev_log st1) =
            built_count (dev_log st) + (if set hashes = set (previousFrontend st) then 0 else 1)"
      by (auto split: if_splits outcome.splits)
    moreover from backend_phase_frontend [of st1 n ev cfg t c] b
    have "previousFrontend st' = previousFrontend st1 \<and> built_count (dev_log st') = built_count (dev_log st1)"
      by simp
    ultimately show ?thesis by simp
  qed
  from phase step show ?thesis by blast
qed

lemma ex_frontend_hashes:
  "d ''/project/frontend/style.css'' = Some (File ex_css) \<Longrightarrow>
   generateHashes ex_env d ''frontend'' = Inr [''/project/frontend/style.css:10000012'']"
  by (simp add: generateHashes_def generateHash_file_def readFile_def ex_env_def ex_css_def
        toString36.simps digit36_def)

theorem rebuild_gated_by_frontend_change_witness:
  "dev_step (Suc (Suc 0)) ex_env ex_cfg ex_tick (dev_init ex_disk)
     = Done (dev_event (Built True)
              ((dev_init ex_disk)\<lparr> world := disk_of ex_final,
                                    previousFrontend := [''/project/frontend/style.css:10000012''] \<rparr>))
   \<and> frontend_phase (Suc (Suc 0)) ex_env ex_cfg ex_tick
        (dev_event (Built True)
              ((dev_init ex_disk)\<lparr> world := disk_of ex_final,
                                    previousFrontend := [''/project/frontend/style.css:10000012''] \<rparr>))
     = Done (False, dev_event (Built True)
              ((dev_init ex_disk)\<lparr> world := disk_of ex_final,
                                    previousFrontend := [''/project/frontend/style.css:10000012''] \<rparr>))"
proof -
  let ?st1 = "dev_event (Built True)
              ((dev_init ex_disk)\<lparr> world := disk_of ex_final,
                                    previousFrontend := [''/project/frontend/style.css:10000012''] \<rparr>)"
  have h0: "generateHashes ex_env (edit ex_tick (world (dev_init ex_disk))) (frontendDir ex_cfg)
      = Inr [''/project/frontend/style.css:10000012'']"
    by (simp add: ex_tick_def dev_init_def ex_frontend_hashes ex_disk_def)
  have f0: "frontend_phase (Suc (Suc 0)) ex_env ex_cfg ex_tick (dev_init ex_disk) = Done (True, ?st1)"
    using rebuild_gated_by_frontend_change [OF h0, of "Suc (Suc 0)"]
    by (simp add: ex_tick_def dev_init_def ex_run_bundle dev_event_def)
  have b0: "backend_phase (Suc (Suc 0)) ex_env ex_cfg ex_tick True ?st1 = Done ?st1"
    by (simp add: backend_phase_def ex_cfg_def)
  have h1: "generateHashes ex_env (edit ex_tick (world ?st1)) (frontendDir ex_cfg)
      = Inr [''/project/frontend/style.css:10000012'']"
    by (simp add: ex_tick_def ex_frontend_hashes ex_final_def ex_st2_def ex_st1_def
          ex_st0_def ex_disk_def inside_def dir_path_def startsWith_def)
  have f1: "frontend_phase (Suc (Suc 0)) ex_env ex_cfg ex_tick ?st1 = Done (False, ?st1)"
    using rebuild_gated_by_frontend_change [OF h1, of "Suc (Suc 0)"]
    by (simp add: ex_tick_def dev_event_def dev_init_def)
  from f0 b0 f1 show ?thesis by (simp add: dev_step_def)
qed

lemma log_phase_append:
  "log_phase ph (es @ fs) = (case log_phase ph es of None \<Rightarrow> None | Some ph' \<Rightarrow> log_phase ph' fs)"
  by (induction es arbitrary: ph) (auto split: option.splits)

lemma log_phase_snoc:
  "log_phase ph (es @ [e]) = (case log_phase ph es of None \<Rightarrow> None | Some ph' \<Rightarrow> phase_step ph' e)"
  by (simp add: log_phase_append split: option.splits)

lemma phase_step_neutral [simp]:
  "phase_step ph (Built b) = Some ph" "phase_step ph (Aborted c) = Some ph"
  "phase_step ph (Pinged k b) = Some ph" "phase_step ph (Published r) = Some ph"
  by (cases ph; simp)+

lemma alive_subset_keys: "set (alive st) \<subseteq> set (map fst (processes st))"
  by (auto simp: alive_def)

lemma distinct_alive: "distinct (map fst (processes st)) \<Longrightarrow> distinct (alive st)"
  unfolding alive_def by (rule distinct_map_filter)

lemma alive_sleep10: "set (alive (sleep10 st)) \<subseteq> set (alive st)"
  by (force simp: alive_def sleep10_def split: proc_status.splits nat.splits)

lemma alive_kill: "set (alive (kill p t st)) \<subseteq> set (alive st)"
  by (force simp: alive_def kill_def dev_event_def split: if_splits)

lemma killed_not_alive:
  assumes "distinct (map fst (processes st))" and "killed st p"
  shows "p \<notin> set (alive st)"
proof
  assume "p \<in> set (alive st)"
  then obtain s where s: "(p, s) \<in> set (processes st)" "s \<noteq> Exited"
    by (auto simp: alive_def)
  with assms(1) have "map_of (processes st) p = Some s" by simp
  with assms(2) s(2) show False by (simp add: killed_def)
qed

text \<open>The poll loop, from a process that got the signal.\<close>

lemma wait_killed_handle:
  assumes "map fst (processes st) = [0..<length (processes st)]"
    and "log_phase NoHandle (dev_log st) = Some (Signalled p)"
    and "phase_fits (Signalled p) st"
  shows "ends_in handle_ok (\<lambda>s. s) (wait_killed n p st)
    \<and> (\<forall>st'. wait_killed n p st = Done st' \<longrightarrow>
          map fst (processes st') = [0..<length (processes st')] \<and>
          log_phase NoHandle (dev_log st') = Some (ConfirmedDead p) \<and> phase_fits (ConfirmedDead p) st')"
  using assms
proof (induction n arbitrary: st)
  case 0
  show ?case by simp
next
  case (Suc n)
  show ?case
  proof (cases "killed st p")
    case True
    have d: "distinct (map fst (processes st))"
      using Suc.prems(1) by simp
    have "p \<notin> set (alive st)"
      by (rule killed_not_alive [OF d True])
    with Suc.prems(3) have a: "alive st = []"
      by (cases "alive st") (auto simp: phase_fits_def)
    with True Suc.prems show ?thesis
      by (simp add: handle_ok_def log_phase_snoc phase_fits_def)
  next
    case False
    let ?st = "sleep10 (dev_event (Polled p False) st)"
    have 1: "map fst (processes ?st) = [0..<length (processes ?st)]"
      using Suc.prems(1) by simp
    have 2: "log_phase NoHandle (dev_log ?st) = Some (Signalled p)"
      using Suc.prems(2) by (simp add: log_phase_snoc)
    have "set (alive ?st) \<subseteq> set (alive (dev_event (Polled p False) st))"
      by (rule alive_sleep10)
    with Suc.prems(3) have 3: "phase_fits (Signalled p) ?st"
      by (auto simp: phase_fits_def)
    from Suc.IH [OF 1 2 3] False show ?thesis by simp
  qed
qed

lemma notify_loop_handle:
  assumes "handle_settled st"
  shows "ends_in handle_settled (\<lambda>s. s) (notify_loop n t k st)"
  using assms
proof (induction n arbitrary: st k)
  case 0
  show ?case by simp
next
  case (Suc n)
  have a: "handle_settled (dev_event (Pinged k False) st)"
    using Suc.prems
    by (auto simp: handle_settled_def log_phase_snoc phase_fits_def split: option.splits handle_phase.splits)
  have b: "handle_settled (dev_event (Published (autoReloadRevision st))
                   (dev_event (Pinged k True) (st\<lparr> autoReloadRevision := autoReloadRevision st + 1 \<rparr>)))"
    using Suc.prems
    by (auto simp: handle_settled_def log_phase_append phase_fits_def alive_def dev_event_def
             split: option.splits handle_phase.splits)
  show ?case
    using Suc.IH [OF a, of "Suc k"] b Suc.prems by simp
qed

lemma handle_settled_ok: "handle_settled st \<Longrightarrow> handle_ok st"
  by (auto simp: handle_settled_def handle_ok_def split: option.splits handle_phase.splits)

lemma handle_ok_one_alive:
  assumes "handle_ok st"
  shows "length (alive st) \<le> 1"
proof -
  from assms have keys: "map fst (processes st) = [0..<length (processes st)]"
    by (simp add: handle_ok_def)
  then have "distinct (map fst (processes st))" by simp
  then have d: "distinct (alive st)" by (rule distinct_alive)
  from assms obtain ph where "phase_fits ph st"
    by (auto simp: handle_ok_def split: option.splits)
  then obtain p where "set (alive st) \<subseteq> {p}"
    by (cases ph) (auto simp: phase_fits_def)
  with d have "card (set (alive st)) \<le> card {p}"
    by (intro card_mono) auto
  with d show ?thesis by (simp add: distinct_card)
qed

lemma abort_settled: "handle_settled st \<Longrightarrow> handle_settled (abort st)"
  by (auto simp: handle_settled_def log_phase_snoc phase_fits_def split: option.splits handle_phase.splits)

lemma frontend_event_settled:
  "handle_settled st \<Longrightarrow> handle_settled (dev_event (Built b) (st\<lparr> world := w, previousFrontend := f \<rparr>))"
  by (auto simp: handle_settled_def log_phase_snoc phase_fits_def alive_def
           split: option.splits handle_phase.splits)

lemma frontend_fields_settled:
  "handle_settled st \<Longrightarrow> handle_settled (st\<lparr> world := w, previousFrontend := f \<rparr>)"
  by (auto simp: handle_settled_def phase_fits_def alive_def split: option.splits handle_phase.splits)

lemma previousBackend_settled:
  "handle_settled st \<Longrightarrow> handle_settled (st\<lparr> previousBackend := b \<rparr>)"
  by (auto simp: handle_settled_def phase_fits_def alive_def split: option.splits handle_phase.splits)

lemma controllers_settled:
  "handle_settled st \<Longrightarrow> handle_settled (st\<lparr> controllers := c \<rparr>)"
  by (auto simp: handle_settled_def phase_fits_def alive_def split: option.splits handle_phase.splits)

lemma settled_None:
  assumes "handle_settled st" and "webServer st = None"
  shows "log_phase NoHandle (dev_log st) = Some NoHandle \<and> alive st = []
     \<and> map fst (processes st) = [0..<length (processes st)]"
  using assms
  by (auto simp: handle_settled_def phase_fits_def split: option.splits handle_phase.splits)

lemma settled_Some:
  assumes "handle_settled st" and "webServer st = Some p"
  shows "log_phase NoHandle (dev_log st) = Some (Live p) \<and> phase_fits (Live p) st
     \<and> map fst (processes st) = [0..<length (processes st)]"
  using assms
  by (auto simp: handle_settled_def phase_fits_def split: option.splits handle_phase.splits)

lemma kill_signalled:
  assumes "log_phase NoHandle (dev_log st) = Some (Live p)" and "phase_fits (Live p) st"
    and "map fst (processes st) = [0..<length (processes st)]"
  shows "log_phase NoHandle (dev_log (kill p t st)) = Some (Signalled p)
     \<and> phase_fits (Signalled p) (kill p t st)
     \<and> map fst (processes (kill p t st)) = [0..<length (processes (kill p t st))]"
  using assms alive_kill [of p t st]
  by (auto simp: log_phase_snoc phase_fits_def)

lemma spawn_live:
  assumes "map fst (processes st) = [0..<length (processes st)]" and "alive st = []"
    and "log_phase NoHandle (dev_log st) = Some ph" and "ph = NoHandle \<or> ph = ConfirmedDead q"
  shows "handle_settled (spawn st)"
proof -
  let ?p = "length (processes st)"
  have fresh: "?p \<notin> fst ` set (processes st)"
  proof -
    have "fst ` set (processes st) = set (map fst (processes st))" by simp
    also have "\<dots> = {0..<?p}" using assms(1) by simp
    finally show ?thesis by simp
  qed
  then have "map_of (processes st) ?p = None"
    by (simp add: map_of_eq_None_iff)
  then have m: "map_of (processes st @ [(?p, Running)]) ?p = Some Running"
    by (simp add: map_add_def)
  have a: "alive (spawn st) = [?p]"
    using assms(2) by (simp add: alive_def spawn_def Let_def dev_event_def)
  have l: "log_phase NoHandle (dev_log (spawn st)) = Some (Live ?p)"
    using assms(2,3,4) by (auto simp: log_phase_snoc)
  have k: "map fst (processes (spawn st)) = [0..<length (processes (spawn st))]"
    using assms(1) by simp
  show ?thesis
    using m a l k by (simp add: handle_settled_def phase_fits_def)
qed

lemma notify_loop_webServer:
  "ends_in (\<lambda>s. webServer s = webServer st) (\<lambda>s. s) (notify_loop n t k st)"
proof (induction n arbitrary: st k)
  case 0
  show ?case by simp
next
  case (Suc n)
  show ?case
    using Suc [of "dev_event (Pinged k False) st" "Suc k"] by simp
qed

lemma notify_handle:
  assumes "handle_settled st"
  shows "ends_in (\<lambda>s. handle_settled s \<and> webServer s = webServer st) (\<lambda>s. s) (notify n t st)"
proof -
  let ?st = "st\<lparr> controllers := controllers st @ [False] \<rparr>"
  have "ends_in handle_settled (\<lambda>s. s) (notify_loop n t 0 ?st)"
    by (rule notify_loop_handle) (rule controllers_settled [OF assms])
  moreover have "ends_in (\<lambda>s. webServer s = webServer ?st) (\<lambda>s. s) (notify_loop n t 0 ?st)"
    by (rule notify_loop_webServer)
  ultimately show ?thesis
    by (cases "notify_loop n t 0 ?st") (simp_all add: notify_def)
qed

text \<open>The restart of the backend, from a settled handle.\<close>

lemma stop_backend_handle:
  assumes "handle_settled st"
  shows "ends_in handle_ok (\<lambda>s. s)
           (case webServer st of None \<Rightarrow> Done (abort st) | Some p \<Rightarrow> wait_killed n p (kill p t (abort st)))
    \<and> (\<forall>st'. (case webServer st of None \<Rightarrow> Done (abort st) | Some p \<Rightarrow> wait_killed n p (kill p t (abort st))) = Done st' \<longrightarrow>
          map fst (processes st') = [0..<length (processes st')] \<and> alive st' = [] \<and>
          (\<exists>ph. log_phase NoHandle (dev_log st') = Some ph \<and> phase_fits ph st' \<and>
                (ph = NoHandle \<or> (\<exists>q. ph = ConfirmedDead q)) \<and>
                (webServer st = None \<longrightarrow> ph = NoHandle)))"
proof (cases "webServer st")
  case None
  have s: "handle_settled (abort st)" by (rule abort_settled [OF assms])
  have w: "webServer (abort st) = None" using None by simp
  from settled_None [OF s w] handle_settled_ok [OF s] None w show ?thesis
    by (auto simp: phase_fits_def)
next
  case (Some p)
  have s: "handle_settled (abort st)" by (rule abort_settled [OF assms])
  have w: "webServer (abort st) = Some p" using Some by simp
  from settled_Some [OF s w]
  have l: "log_phase NoHandle (dev_log (abort st)) = Some (Live p)"
    and f: "phase_fits (Live p) (abort st)"
    and k: "map fst (processes (abort st)) = [0..<length (processes (abort st))]"
    by simp_all
  from kill_signalled [OF l f k, of t]
  have l2: "log_phase NoHandle (dev_log (kill p t (abort st))) = Some (Signalled p)"
    and f2: "phase_fits (Signalled p) (kill p t (abort st))"
    and k2: "map fst (processes (kill p t (abort st))) = [0..<length (processes (kill p t (abort st)))]"
    by simp_all
  from wait_killed_handle [OF k2 l2 f2, of n] Some show ?thesis
    by (auto simp: phase_fits_def)
qed

lemma start_backend_handle:
  assumes keys: "map fst (processes st) = [0..<length (processes st)]" and dead: "alive st = []"
    and log: "log_phase NoHandle (dev_log st) = Some ph" and fits: "phase_fits ph st"
    and ph: "ph = NoHandle \<or> (\<exists>q. ph = ConfirmedDead q)"
    and lang: "backendLanguage cfg = Some ''rust'' \<or> ph = NoHandle"
  shows "ends_in handle_ok (\<lambda>s. s)
           (and_then (if backendLanguage cfg = Some ''rust''
                      then (if spawn_ok t then Done (spawn st) else Threw (CollaboratorError ''spawn'') st)
                      else Done st)
              (\<lambda>st3. if isAutoReload cfg then notify n t st3 else Done st3))
    \<and> (\<forall>st'. and_then (if backendLanguage cfg = Some ''rust''
                      then (if spawn_ok t then Done (spawn st) else Threw (CollaboratorError ''spawn'') st)
                      else Done st)
              (\<lambda>st3. if isAutoReload cfg then notify n t st3 else Done st3) = Done st' \<longrightarrow>
          handle_settled st' \<and> (backendLanguage cfg = Some ''rust'' \<or> webServer st' = None))"
proof -
  have ok: "handle_ok st"
    using keys log fits by (simp add: handle_ok_def)
  have tail: "ends_in handle_ok (\<lambda>s. s) (if isAutoReload cfg then notify n t st3 else Done st3)
      \<and> (\<forall>st'. (if isAutoReload cfg then notify n t st3 else Done st3) = Done st' \<longrightarrow>
            handle_settled st' \<and> webServer st' = webServer st3)"
    if s: "handle_settled st3" for st3
    using notify_handle [OF s, of n t] handle_settled_ok [OF s] s
    by (cases "notify n t st3") (auto simp: handle_settled_ok)
  show ?thesis
  proof (cases "backendLanguage cfg = Some ''rust''")
    case True
    show ?thesis
    proof (cases "spawn_ok t")
      case ok_spawn: True
      have "handle_settled (spawn st)"
        using ph by (auto intro: spawn_live [OF keys dead log])
      from tail [OF this] True ok_spawn show ?thesis by simp
    next
      case False
      with True ok show ?thesis by simp
    qed
  next
    case False
    with lang have n: "ph = NoHandle" by simp
    with keys log fits have s: "handle_settled st"
      by (simp add: handle_settled_def)
    from n fits have "webServer st = None" by (simp add: phase_fits_def)
    with tail [OF s] False show ?thesis by simp
  qed
qed

lemma backend_phase_handle:
  assumes s: "handle_settled st" and lang: "backendLanguage cfg = Some ''rust'' \<or> webServer st = None"
  shows "ends_in handle_ok (\<lambda>s. s) (backend_phase n ev cfg t c st)
    \<and> (\<forall>st'. backend_phase n ev cfg t c st = Done st' \<longrightarrow>
          handle_settled st' \<and> (backendLanguage cfg = Some ''rust'' \<or> webServer st' = None))"
proof -
  have restart: "ends_in handle_ok (\<lambda>s. s)
       (and_then (case webServer st1 of None \<Rightarrow> Done (abort st1) | Some p \<Rightarrow> wait_killed n p (kill p t (abort st1)))
          (\<lambda>st2. and_then (if backendLanguage cfg = Some ''rust''
                  then (if spawn_ok t then Done (spawn st2) else Threw (CollaboratorError ''spawn'') st2)
                  else Done st2)
          (\<lambda>st3. if isAutoReload cfg then notify n t st3 else Done st3)))
     \<and> (\<forall>st'. and_then (case webServer st1 of None \<Rightarrow> Done (abort st1) | Some p \<Rightarrow> wait_killed n p (kill p t (abort st1)))
          (\<lambda>st2. and_then (if backendLanguage cfg = Some ''rust''
                  then (if spawn_ok t then Done (spawn st2) else Threw (CollaboratorError ''spawn'') st2)
                  else Done st2)
          (\<lambda>st3. if isAutoReload cfg then notify n t st3 else Done st3)) = Done st' \<longrightarrow>
          handle_settled st' \<and> (backendLanguage cfg = Some ''rust'' \<or> webServer st' = None))"
    if s1: "handle_settled st1" and l1: "backendLanguage cfg = Some ''rust'' \<or> webServer st1 = None"
    for st1 :: dev_state
  proof (cases "case webServer st1 of None \<Rightarrow> Done (abort st1) | Some p \<Rightarrow> wait_killed n p (kill p t (abort st1))")
    case Diverged
    then show ?thesis by simp
  next
    case (Threw e s')
    with stop_backend_handle [OF s1, of n t] show ?thesis by simp
  next
    case (Done st2)
    with stop_backend_handle [OF s1, of n t] obtain ph where
      k: "map fst (processes st2) = [0..<length (processes st2)]" and a: "alive st2 = []"
      and l: "log_phase NoHandle (dev_log st2) = Some ph" and f: "phase_fits ph st2"
      and p: "ph = NoHandle \<or> (\<exists>q. ph = ConfirmedDead q)" and w: "webServer st1 = None \<longrightarrow> ph = NoHandle"
      by auto
    have lang2: "backendLanguage cfg = Some ''rust'' \<or> ph = NoHandle"
      using l1 w by auto
    from start_backend_handle [OF k a l f p lang2, of t n] Done show ?thesis by simp
  qed
  have pb: "handle_settled (st\<lparr> previousBackend := nb \<rparr>)" for nb
    by (rule previousBackend_settled [OF s])
  have ok: "handle_ok st" by (rule handle_settled_ok [OF s])
  show ?thesis
    using restart [OF pb] lang s ok pb handle_settled_ok [OF pb]
    by (simp add: backend_phase_def Let_def split: sum.splits)
qed

lemma frontend_phase_handle:
  assumes s: "handle_settled st"
  shows "ends_in handle_ok snd (frontend_phase n ev cfg t st)
    \<and> (\<forall>c st'. frontend_phase n ev cfg t st = Done (c, st') \<longrightarrow>
          handle_settled st' \<and> webServer st' = webServer st)"
proof -
  have w: "handle_settled (st\<lparr> world := x \<rparr>)" for x
    using frontend_fields_settled [OF s, where w = x and f = "previousFrontend st"] by simp
  have f: "handle_settled (st\<lparr> world := x, previousFrontend := y \<rparr>)" for x y
    by (rule frontend_fields_settled [OF s])
  have b: "handle_settled (dev_event (Built r) (st\<lparr> previousFrontend := y, world := x \<rparr>))" for r x y
    using s
    by (auto simp: handle_settled_def log_phase_snoc phase_fits_def alive_def
             split: option.splits handle_phase.splits)
  have f': "handle_settled (st\<lparr> previousFrontend := y, world := x \<rparr>)" for x y
    using s
    by (auto simp: handle_settled_def phase_fits_def alive_def split: option.splits handle_phase.splits)
  show ?thesis
    using handle_settled_ok [OF w] handle_settled_ok [OF f] handle_settled_ok [OF b] f b
      f' handle_settled_ok [OF f']
    by (auto simp: frontend_phase_def Let_def split: sum.splits outcome.splits)
qed

lemma dev_step_handle:
  assumes s: "handle_settled st" and lang: "backendLanguage cfg = Some ''rust'' \<or> webServer st = None"
  shows "ends_in handle_ok (\<lambda>s. s) (dev_step n ev cfg t st)
    \<and> (\<forall>st'. dev_step n ev cfg t st = Done st' \<longrightarrow>
          handle_settled st' \<and> (backendLanguage cfg = Some ''rust'' \<or> webServer st' = None))"
proof (cases "frontend_phase n ev cfg t st")
  case Diverged
  then show ?thesis by (simp add: dev_step_def)
next
  case (Threw e s')
  with frontend_phase_handle [OF s, of n ev cfg t] show ?thesis by (simp add: dev_step_def)
next
  case (Done r)
  obtain c st1 where r: "r = (c, st1)" by (cases r)
  with Done frontend_phase_handle [OF s, of n ev cfg t]
  have s1: "handle_settled st1" and w: "webServer st1 = webServer st" by auto
  have l1: "backendLanguage cfg = Some ''rust'' \<or> webServer st1 = None"
    using lang w by simp
  from backend_phase_handle [OF s1 l1, of n ev t c] Done r show ?thesis
    by (simp add: dev_step_def)
qed

lemma dev_loop_handle:
  assumes s: "handle_settled st" and lang: "backendLanguage cfg = Some ''rust'' \<or> webServer st = None"
  shows "ends_in handle_ok (\<lambda>s. s) (dev_loop n ev cfg ts st)"
  using assms
proof (induction ts arbitrary: st)
  case Nil
  then show ?case by (simp add: dev_loop_def handle_settled_ok)
next
  case (Cons t ts)
  show ?case
  proof (cases "dev_step n ev cfg t st")
    case Diverged
    then show ?thesis by (simp add: dev_loop_def)
  next
    case (Threw e s')
    with dev_step_handle [OF Cons.prems, of n ev t] show ?thesis by (simp add: dev_loop_def)
  next
    case (Done st1)
    with dev_step_handle [OF Cons.prems, of n ev t]
    have "handle_settled st1" and "backendLanguage cfg = Some ''rust'' \<or> webServer st1 = None"
      by auto
    from Cons.IH [OF this] Done show ?thesis by (simp add: dev_loop_def)
  qed
qed

lemma dev_init_settled: "handle_settled (dev_init d)"
  by (simp add: handle_settled_def dev_init_def phase_fits_def alive_def)


text \<open>
  C7. Wherever a run of the dev loop stands after any number of iterations, by returning
  or by throwing, at most one backend process is alive, and the log follows the protocol of
  the handle: a process is spawned only when nothing is alive and the handle is empty or
  its process was killed, polled and seen dead.
\<close>
theorem one_backend_alive:
  assumes "dev_loop n ev cfg ts (dev_init d) = Done st \<or> dev_loop n ev cfg ts (dev_init d) = Threw e st"
  shows "length (alive st) \<le> 1 \<and> log_phase NoHandle (dev_log st) \<noteq> None"
proof -
  have "ends_in handle_ok (\<lambda>s. s) (dev_loop n ev cfg ts (dev_init d))"
    by (rule dev_loop_handle [OF dev_init_settled]) (simp add: dev_init_def)
  with assms have ok: "handle_ok st" by auto
  then have "log_phase NoHandle (dev_log st) \<noteq> None"
    by (auto simp: handle_ok_def split: option.splits)
  with handle_ok_one_alive [OF ok] show ?thesis by simp
qed

lemma ex_backend_hashes:
  "d ''/project/backend/main.rs'' = Some (File ''fn main(){}'') \<Longrightarrow>
   generateHashes ex_backend_env d ''backend'' = Inr [''/project/backend/main.rs:1000000b'']"
  "d ''/project/backend/main.rs'' = Some (File ''fn main(){ }'') \<Longrightarrow>
   generateHashes ex_backend_env d ''backend'' = Inr [''/project/backend/main.rs:1000000c'']"
  "generateHashes ex_backend_env d ''frontend'' = Inr []"
  "generateHashes ex_backend_env d ''.bundle'' = Inr []"
  by (simp_all add: generateHashes_def generateHash_file_def readFile_def ex_backend_env_def ex_env_def
        toString36.simps digit36_def)

lemma ex_dev_cfg_fields [simp]:
  "frontendDir ex_dev_cfg = ''frontend''" "bundleDir ex_dev_cfg = ''.bundle''"
  "backendDir ex_dev_cfg = ''backend''" "backendLanguage ex_dev_cfg = Some ''rust''"
  "isAutoReload ex_dev_cfg = True"
  by (simp_all add: ex_dev_cfg_def ex_cfg_def isAutoReload_def)

lemma ex_step1:
  "dev_step (Suc (Suc (Suc 0))) ex_backend_env ex_dev_cfg ex_tick (dev_init ex_backend_disk) = Done ex_dev_st1"
  by (simp add: dev_step_def frontend_phase_def backend_phase_def Let_def ex_tick_def dev_init_def
        ex_backend_hashes ex_backend_disk_def symmetricDifference_def abort_def spawn_def notify_def
        dev_event_def alive_def ex_dev_st1_def)


lemma ex_step2:
  "dev_step (Suc (Suc (Suc 0))) ex_backend_env ex_dev_cfg ex_touch ex_dev_st1 = Done ex_dev_st2"
  by (simp add: dev_step_def frontend_phase_def backend_phase_def Let_def ex_touch_def ex_tick_def
        ex_dev_st1_def ex_dev_st2_def ex_dev_log_def
        ex_backend_hashes ex_backend_disk_def symmetricDifference_def abort_def spawn_def notify_def
        kill_def killed_def sleep10_def dev_event_def alive_def)

lemma ex_dev_loop:
  "dev_loop (Suc (Suc (Suc 0))) ex_backend_env ex_dev_cfg [ex_tick, ex_touch] (dev_init ex_backend_disk)
     = Done ex_dev_st2"
  by (simp add: dev_loop_def ex_step1 ex_step2)

theorem one_backend_alive_witness:
  "dev_loop (Suc (Suc (Suc 0))) ex_backend_env ex_dev_cfg [ex_tick, ex_touch] (dev_init ex_backend_disk)
     = Done ex_dev_st2
   \<and> dev_log ex_dev_st2 =
       [Aborted 0, Spawned 0 [], Pinged 0 False, Pinged 1 True, Published 0,
        Aborted 1, Killed 0, Polled 0 False, Polled 0 False, Polled 0 True, Spawned 1 [],
        Pinged 0 False, Pinged 1 True, Published 1]
   \<and> alive ex_dev_st2 = [1]
   \<and> length (alive ex_dev_st2) \<le> 1
   \<and> log_phase NoHandle (dev_log ex_dev_st2) \<noteq> None"
proof -
  have a: "alive ex_dev_st2 = [1]"
    by (simp add: alive_def ex_dev_st2_def)
  have l: "dev_log ex_dev_st2 =
       [Aborted 0, Spawned 0 [], Pinged 0 False, Pinged 1 True, Published 0,
        Aborted 1, Killed 0, Polled 0 False, Polled 0 False, Polled 0 True, Spawned 1 [],
        Pinged 0 False, Pinged 1 True, Published 1]"
    by (simp add: ex_dev_st2_def ex_dev_log_def)
  from one_backend_alive [of "Suc (Suc (Suc 0))" ex_backend_env ex_dev_cfg "[ex_tick, ex_touch]"
      ex_backend_disk ex_dev_st2] ex_dev_loop
  have "length (alive ex_dev_st2) \<le> 1 \<and> log_phase NoHandle (dev_log ex_dev_st2) \<noteq> None"
    by simp
  with a l ex_dev_loop show ?thesis by simp
qed

text \<open>A notify wait ends by a connection that succeeds, and in no other way.\<close>

lemma notify_loop_unreachable:
  assumes "\<And>k. \<not> ping_ok t k" and "\<not> last (controllers st)"
  shows "notify_loop n t k st = Diverged"
  using assms(2)
proof (induction n arbitrary: k st)
  case 0
  show ?case by simp
next
  case (Suc n)
  have "\<not> last (controllers (dev_event (Pinged k False) st))"
    using Suc.prems by simp
  from Suc.IH [OF this] Suc.prems assms(1) show ?case by simp
qed

lemma notify_unreachable:
  assumes "\<And>k. \<not> ping_ok t k"
  shows "notify n t st = Diverged"
  unfolding notify_def by (rule notify_loop_unreachable [OF assms]) simp

lemma notify_loop_ends_by_ping:
  assumes "\<not> last (controllers st)" and "notify_loop n t k st = Done st'"
  shows "(\<exists>j. k \<le> j \<and> ping_ok t j) \<and> autoReloadRevision st' = autoReloadRevision st + 1"
  using assms
proof (induction n arbitrary: k st)
  case 0
  then show ?case by simp
next
  case (Suc n)
  show ?case
  proof (cases "ping_ok t k")
    case True
    with Suc.prems show ?thesis by auto
  next
    case False
    let ?st = "dev_event (Pinged k False) st"
    from False Suc.prems have r: "notify_loop n t (Suc k) ?st = Done st'" by simp
    have c: "\<not> last (controllers ?st)" using Suc.prems by simp
    from Suc.IH [OF c r] obtain j where "Suc k \<le> j" "ping_ok t j"
      and v: "autoReloadRevision st' = autoReloadRevision ?st + 1" by blast
    then have "k \<le> j \<and> ping_ok t j" by simp
    with v show ?thesis by auto
  qed
qed

lemma dead_tick_no_ping: "\<not> ping_ok dead_tick k"
  by (simp add: dead_tick_def)

lemma dead_tick_fields: "edit dead_tick = (\<lambda>d. d)" "spawn_ok dead_tick = True"
  by (simp_all add: dead_tick_def)

text \<open>
  C6, on the code. With a backend that never accepts a connection, the first iteration that
  restarts the backend never ends, whatever the later ticks bring: the loop awaits
  \<open>notify\<close>, nothing else can abort the signal of the wait in flight, and no later change
  is ever looked at.
\<close>

theorem notify_wait_never_cancelled:
  "dev_loop n ex_backend_env ex_dev_cfg (dead_tick # ts) (dev_init ex_backend_disk) = Diverged"
proof -
  have "dev_step n ex_backend_env ex_dev_cfg dead_tick (dev_init ex_backend_disk) = Diverged"
    by (simp add: dev_step_def frontend_phase_def backend_phase_def Let_def dead_tick_fields
          dev_init_def ex_backend_hashes ex_backend_disk_def symmetricDifference_def
          notify_unreachable [OF dead_tick_no_ping])
  then show ?thesis by (simp add: dev_loop_def)
qed


end
